theory Spec2Isabelle
  imports Main "HOL-Library.Sublist" "HOL-Library.Log_Nat"
begin

section \<open>Data model of \<open>static/app.js\<close>\<close>

text \<open>
  A feed item as the front end reads it: \<open>createNewsCard\<close> and \<open>renderNews\<close> access the
  members below. Items are taken to be well formed, as the feed and the translation
  endpoint deliver them: \<open>source\<close> and \<open>url\<close> are strings and the optional members are
  absent or present, so that \<open>item.source.toUpperCase()\<close> does not throw and
  \<open>renderNews\<close> always completes. The items are values: no function of the file
  assigns to a member of an item.
\<close>

record feed_item =
  url :: string
  source :: string
  source_name :: string
  title :: string
  description :: "string option"
  author :: "string option"
  published_at :: "string option"
  fetched_at :: "string option"

text \<open>
  \<open>currentLang\<close> is the persisted preference; the language button only ever writes
  \<open>'en'\<close> or \<open>'ru'\<close>, and \<open>translations\<close> has exactly these two keys.
\<close>

datatype lang = EN | RU

text \<open>
  What \<open>originalNewsData\<close> can hold. \<open>loadNews\<close> assigns \<open>data.items || []\<close> without
  looking at its shape, so besides an array of items the variable can hold any truthy
  JSON value. \<open>Scalar\<close> stands for a truthy value that is not iterable and has neither a
  \<open>length\<close> nor a \<open>slice\<close> member: a non-zero number or \<open>true\<close>.
\<close>

datatype stored = Snapshot "feed_item list" | Scalar

text \<open>
  The \<open>items\<close> member of a parsed body, by what \<open>data.items || fallback\<close> and the
  spread make of it: \<open>ItemsFalsy\<close> is a member that is absent, \<open>null\<close>, \<open>false\<close>,
  \<open>0\<close> or the empty string; \<open>ItemsArray\<close> is an array of items (truthy also when
  empty); \<open>ItemsScalar\<close> is a non-zero number or \<open>true\<close>. Other shapes (a string, an
  object, an array of something else than items) are not modelled.
\<close>

datatype items_field = ItemsFalsy | ItemsArray "feed_item list" | ItemsScalar

text \<open>
  The value \<open>response.json()\<close> resolves to: the JSON value \<open>null\<close>, on which reading
  \<open>.items\<close> throws a TypeError, or any other JSON value, on which it yields the member.
\<close>

datatype payload = JsonNull | JsonValue items_field

text \<open>
  What the two awaits \<open>fetch(...)\<close> and \<open>response.json()\<close> produce together: the fetch
  is rejected (network error), or a response with an HTTP status arrives whose body does
  not parse, or whose body parses. The code never reads the status.
\<close>

datatype reply = Rejected | NotJson nat | Parsed nat payload

datatype request = GetNews bool | PostTranslate "feed_item list"

text \<open>The percentage written into the progress line; \<open>NaN\<close> prints as \<open>NaN%\<close>.\<close>

datatype progress = NaN | Percent nat

text \<open>
  The content of \<open>newsGrid\<close>: one of the messages, or one card per item, in order
  (\<open>filtered.map(item => createNewsCard(item)).join('')\<close>).
\<close>

datatype view = Loading | ErrorView | Translating | TranslatingPct progress
  | NoNews | Cards "feed_item list"

text \<open>
  The module-level variables the feed pipeline uses, with the two effects it has on the
  outside: \<open>newsGrid\<close> is the sequence of contents written to \<open>newsGrid.innerHTML\<close>
  (the page shows the last one), \<open>sent\<close> the sequence of \<open>fetch\<close> calls issued.
\<close>

record app_state =
  originalNewsData :: stored
  newsData :: "feed_item list"
  currentFilter :: string
  currentLang :: lang
  newsGrid :: "view list"
  sent :: "request list"

definition display_view :: "view \<Rightarrow> app_state \<Rightarrow> app_state" where
  "display_view v s = s\<lparr>newsGrid := newsGrid s @ [v]\<rparr>"

definition fetch :: "request \<Rightarrow> app_state \<Rightarrow> app_state" where
  "fetch r s = s\<lparr>sent := sent s @ [r]\<rparr>"

text \<open>
  The translation endpoint as a run sees it: the reply to the \<open>k\<close>-th request of the
  run (counted from 0), given the batch that was sent.
\<close>

type_synonym translator = "nat \<Rightarrow> feed_item list \<Rightarrow> reply"

section \<open>The JavaScript operations used on these values\<close>

text \<open>\<open>x.length\<close>: \<open>None\<close> is \<open>undefined\<close>.\<close>

fun js_length :: "stored \<Rightarrow> nat option" where
  "js_length (Snapshot xs) = Some (length xs)"
| "js_length Scalar = None"

text \<open>\<open>i < x.length\<close>: a comparison with \<open>undefined\<close> is false.\<close>

definition less_length :: "nat \<Rightarrow> stored \<Rightarrow> bool" where
  "less_length i x = (case js_length x of None \<Rightarrow> False | Some n \<Rightarrow> i < n)"

text \<open>\<open>[...x]\<close>: \<open>None\<close> is the TypeError for a value that is not iterable.\<close>

fun spread :: "stored \<Rightarrow> feed_item list option" where
  "spread (Snapshot xs) = Some xs"
| "spread Scalar = None"

text \<open>\<open>xs.slice(a, b)\<close> for \<open>0 \<le> a\<close>: the elements at the indices \<open>a \<le> j < min b (length xs)\<close>.\<close>

definition slice :: "feed_item list \<Rightarrow> nat \<Rightarrow> nat \<Rightarrow> feed_item list" where
  "slice xs a b = take (b - a) (drop a xs)"

text \<open>\<open>x.slice(a, b)\<close> on the stored value: \<open>None\<close> is the TypeError (no such method).\<close>

fun js_slice :: "stored \<Rightarrow> nat \<Rightarrow> nat \<Rightarrow> feed_item list option" where
  "js_slice (Snapshot xs) a b = Some (slice xs a b)"
| "js_slice Scalar a b = None"

text \<open>\<open>data.items || []\<close> in \<open>loadNews\<close>.\<close>

fun items_or_empty :: "items_field \<Rightarrow> stored" where
  "items_or_empty ItemsFalsy = Snapshot []"
| "items_or_empty (ItemsArray xs) = Snapshot xs"
| "items_or_empty ItemsScalar = Scalar"

section \<open>Number arithmetic\<close>

text \<open>
  JavaScript numbers are IEEE 754 binary64 values. The progress line divides and
  multiplies them, and each operation rounds its exact result to the nearest value with
  a 53-bit significand, ties to the even significand. Array lengths stay below
  \<open>2^32\<close>, so the operands here are exact integers and every result lies in the normal
  range: overflow and subnormal numbers do not arise and are not modelled.
\<close>

text \<open>The exponent of a positive rational: the \<open>e\<close> with \<open>2^e \<le> x < 2^(e + 1)\<close>.\<close>

definition ilog2 :: "rat \<Rightarrow> int" where
  "ilog2 x = (if 1 \<le> x then bitlen \<lfloor>x\<rfloor> - 1 else - bitlen (\<lceil>1 / x\<rceil> - 1))"

text \<open>Rounding to the nearest integer, ties to even.\<close>

definition rne :: "rat \<Rightarrow> int" where
  "rne q = (let f = \<lfloor>q\<rfloor>; r = q - of_int f in
     if r < 1 / 2 then f else if 1 / 2 < r then f + 1 else if even f then f else f + 1)"

text \<open>Rounding to binary64.\<close>

definition fl :: "rat \<Rightarrow> rat" where
  "fl x = (if x = 0 then 0 else
     let u = 2 powi (ilog2 \<bar>x\<bar> - 52) in of_int (rne (x / u)) * u)"

text \<open>\<open>Math.round\<close>: the nearest integer, ties towards \<open>+\<infinity>\<close>, computed exactly.\<close>

definition js_round :: "rat \<Rightarrow> int" where
  "js_round x = \<lfloor>x + 1 / 2\<rfloor>"

definition batchSize :: nat where
  "batchSize = 10"

text \<open>
  \<open>Math.min(100, Math.round((i + batchSize) / originalNewsData.length * 100))\<close>.
  A length of \<open>undefined\<close> gives \<open>NaN\<close>; a length of 0 gives \<open>Infinity\<close>, capped at 100.
\<close>

definition percent :: "nat \<Rightarrow> nat \<Rightarrow> nat" where
  "percent m n = nat (min 100 (js_round (fl (fl (of_nat m / of_nat n) * 100))))"

definition progress_at :: "stored \<Rightarrow> nat \<Rightarrow> progress" where
  "progress_at x i =
     (case js_length x of
        None \<Rightarrow> NaN
      | Some n \<Rightarrow> if n = 0 then Percent 100 else Percent (percent (i + batchSize) n))"

section \<open>\<open>renderNews\<close>\<close>

definition filtered :: "app_state \<Rightarrow> feed_item list" where
  "filtered s =
     (if currentFilter s = ''all'' then newsData s
      else filter (\<lambda>item. source item = currentFilter s) (newsData s))"

definition renderNews :: "app_state \<Rightarrow> app_state" where
  "renderNews s =
     (if length (filtered s) = 0 then display_view NoNews s
      else display_view (Cards (filtered s)) s)"

text \<open>The items a view shows.\<close>

fun shown :: "view \<Rightarrow> feed_item list" where
  "shown (Cards xs) = xs"
| "shown _ = []"

text \<open>The click handler of a filter button.\<close>

definition filterClick :: "string \<Rightarrow> app_state \<Rightarrow> app_state" where
  "filterClick f s = renderNews (s\<lparr>currentFilter := f\<rparr>)"

section \<open>\<open>translateNews\<close>\<close>

text \<open>
  An async function runs up to an \<open>await\<close>, and the page handles other events until
  the awaited reply arrives. A suspended \<open>translateNews\<close> is its local variables: the
  loop index, the batch it sent and the items pushed so far. The two awaits of an
  iteration, \<open>fetch\<close> and \<open>response.json()\<close>, are taken as one: nothing is read or
  written between them.
\<close>

record task =
  t_i :: nat
  t_batch :: "feed_item list"
  translatedItems :: "feed_item list"

datatype completion = Returned app_state | Uncaught app_state

datatype step = Awaiting task app_state | Completed completion

text \<open>
  The body of the loop after the awaits: the items the iteration pushes,
  \<open>...(data.items || batch)\<close>, or \<open>None\<close> when an exception is thrown (a rejected
  fetch, a body that is not JSON, \<open>.items\<close> read on \<open>null\<close>, a spread of a value that is
  not iterable).
\<close>

fun received :: "feed_item list \<Rightarrow> reply \<Rightarrow> feed_item list option" where
  "received batch Rejected = None"
| "received batch (NotJson status) = None"
| "received batch (Parsed status JsonNull) = None"
| "received batch (Parsed status (JsonValue ItemsFalsy)) = Some batch"
| "received batch (Parsed status (JsonValue (ItemsArray ys))) = Some ys"
| "received batch (Parsed status (JsonValue ItemsScalar)) = None"

text \<open>The \<open>catch\<close> block; an exception thrown inside it escapes \<open>translateNews\<close>.\<close>

definition fallback :: "app_state \<Rightarrow> completion" where
  "fallback s =
     (case spread (originalNewsData s) of
        None \<Rightarrow> Uncaught s
      | Some xs \<Rightarrow> Returned (renderNews (s\<lparr>newsData := xs\<rparr>)))"

text \<open>
  The head of the loop with index \<open>i\<close>: test the condition, and either send the next
  batch and suspend, or leave the loop, assign \<open>newsData\<close> and render.
\<close>

definition next_batch :: "nat \<Rightarrow> feed_item list \<Rightarrow> app_state \<Rightarrow> step" where
  "next_batch i acc s =
     (if less_length i (originalNewsData s) then
        (case js_slice (originalNewsData s) i (i + batchSize) of
           None \<Rightarrow> Completed (fallback s)
         | Some batch \<Rightarrow>
             Awaiting \<lparr>t_i = i, t_batch = batch, translatedItems = acc\<rparr>
               (fetch (PostTranslate batch) s))
      else Completed (Returned (renderNews (s\<lparr>newsData := acc\<rparr>))))"

text \<open>The call of \<open>translateNews\<close>, up to its first await.\<close>

definition translateNews_start :: "app_state \<Rightarrow> step" where
  "translateNews_start s = next_batch 0 [] (display_view Translating s)"

text \<open>
  The reply to the pending request arrives, in whatever state the page is by then:
  the rest of the iteration, and the loop head again.
\<close>

definition translateNews_resume :: "task \<Rightarrow> reply \<Rightarrow> app_state \<Rightarrow> step" where
  "translateNews_resume t r s =
     (case received (t_batch t) r of
        None \<Rightarrow> Completed (fallback s)
      | Some ys \<Rightarrow>
          next_batch (t_i t + batchSize) (translatedItems t @ ys)
            (display_view (TranslatingPct (progress_at (originalNewsData s) (t_i t))) s))"

text \<open>
  A run with no other event in between: each reply comes from the translator, and the
  run is resumed at once. The measure is the number of items not yet sent.
\<close>

fun remaining :: "step \<Rightarrow> nat" where
  "remaining (Completed c) = 0"
| "remaining (Awaiting t s) =
     Suc (case js_length (originalNewsData s) of None \<Rightarrow> 0 | Some n \<Rightarrow> n - t_i t)"

function run_from :: "translator \<Rightarrow> step \<Rightarrow> completion" where
  "run_from backend (Completed c) = c"
| "run_from backend (Awaiting t s) =
     run_from backend
       (translateNews_resume t (backend (t_i t div batchSize) (t_batch t)) s)"
  by pat_completeness auto

termination run_from
proof (relation "measure (\<lambda>(backend, st). remaining st)")
  show "wf (measure (\<lambda>(backend :: translator, st). remaining st))"
    by simp
next
  fix backend :: translator and t :: task and s :: app_state
  let ?r = "backend (t_i t div batchSize) (t_batch t)"
  have "remaining (translateNews_resume t ?r s) < remaining (Awaiting t s)"
  proof (cases "received (t_batch t) ?r")
    case None
    then show ?thesis by (simp add: translateNews_resume_def)
  next
    case (Some ys)
    then show ?thesis
      by (cases "originalNewsData s")
        (auto simp add: translateNews_resume_def next_batch_def less_length_def fetch_def
          display_view_def batchSize_def)
  qed
  then show "((backend, translateNews_resume t ?r s), (backend, Awaiting t s))
      \<in> measure (\<lambda>(backend, st). remaining st)"
    by (simp del: remaining.simps)
qed

definition translateNews :: "translator \<Rightarrow> app_state \<Rightarrow> completion" where
  "translateNews backend s = run_from backend (translateNews_start s)"

section \<open>\<open>loadNews\<close> and the language button\<close>

text \<open>
  \<open>loadNews\<close> with the reply to its feed request; the translation it awaits runs with
  no other event in between. Every exception inside the \<open>try\<close> ends in the \<open>catch\<close>
  block, which shows the error message, so the function always returns.
\<close>

definition load_failed :: "app_state \<Rightarrow> app_state" where
  "load_failed s = display_view ErrorView s"

definition loadNews :: "bool \<Rightarrow> reply \<Rightarrow> translator \<Rightarrow> app_state \<Rightarrow> app_state" where
  "loadNews forceRefresh feed backend s =
     (let s1 = fetch (GetNews forceRefresh) (display_view Loading s) in
      case feed of
        Rejected \<Rightarrow> load_failed s1
      | NotJson status \<Rightarrow> load_failed s1
      | Parsed status JsonNull \<Rightarrow> load_failed s1
      | Parsed status (JsonValue items) \<Rightarrow>
          (let s2 = s1\<lparr>originalNewsData := items_or_empty items\<rparr> in
           case spread (originalNewsData s2) of
             None \<Rightarrow> load_failed s2
           | Some xs \<Rightarrow>
               (let s3 = s2\<lparr>newsData := xs\<rparr> in
                if currentLang s3 = RU then
                  (case translateNews backend s3 of
                     Returned s4 \<Rightarrow> s4
                   | Uncaught s4 \<Rightarrow> load_failed s4)
                else renderNews s3)))"

text \<open>
  The click handler of the language button, up to its first await.
  (\<open>localStorage.setItem\<close> and \<open>updateLangButton\<close> do not touch the feed state.)
\<close>

definition langClick_start :: "app_state \<Rightarrow> step" where
  "langClick_start s =
     (let newLang = (if currentLang s = EN then RU else EN);
          s1 = s\<lparr>currentLang := newLang\<rparr>
      in if newLang = RU \<and> less_length 0 (originalNewsData s1) then translateNews_start s1
         else if newLang = EN then
           (case spread (originalNewsData s1) of
              None \<Rightarrow> Completed (Uncaught s1)
            | Some xs \<Rightarrow> Completed (Returned (renderNews (s1\<lparr>newsData := xs\<rparr>))))
         else Completed (Returned s1))"

text \<open>The click with its translation run to the end, no other event in between.\<close>

definition langClick :: "translator \<Rightarrow> app_state \<Rightarrow> completion" where
  "langClick backend s = run_from backend (langClick_start s)"

fun state_of :: "completion \<Rightarrow> app_state" where
  "state_of (Returned s) = s"
| "state_of (Uncaught s) = s"

text \<open>The state a step leaves, and the task it suspends with (if any).\<close>

fun after :: "step \<Rightarrow> app_state" where
  "after (Awaiting t s) = s"
| "after (Completed c) = state_of c"


section \<open>Notions used to state the properties\<close>

text \<open>The \<open>k\<close>-th batch of a snapshot, and the number of batches the loop sends.\<close>

definition batch_at :: "feed_item list \<Rightarrow> nat \<Rightarrow> feed_item list" where
  "batch_at xs k = slice xs (k * batchSize) (k * batchSize + batchSize)"

definition batch_count :: "feed_item list \<Rightarrow> nat" where
  "batch_count xs = (length xs + batchSize - 1) div batchSize"

text \<open>What the iteration for batch \<open>k\<close> pushes, given the translator (\<open>None\<close>: it throws).\<close>

definition answer :: "translator \<Rightarrow> feed_item list \<Rightarrow> nat \<Rightarrow> feed_item list option" where
  "answer backend xs k = received (batch_at xs k) (backend k (batch_at xs k))"

text \<open>
  The effects of the iterations for the batches \<open>k \<le> j < m\<close> (progress lines) and of the
  requests for the batches \<open>k < j < m'\<close>.
\<close>

definition advanced :: "feed_item list \<Rightarrow> nat \<Rightarrow> nat \<Rightarrow> nat \<Rightarrow> app_state \<Rightarrow> app_state" where
  "advanced xs k m m' s =
     s\<lparr>newsGrid := newsGrid s @
          map (\<lambda>j. TranslatingPct (progress_at (Snapshot xs) (j * batchSize))) [k..<m],
       sent := sent s @ map (\<lambda>j. PostTranslate (batch_at xs j)) [Suc k..<m']\<rparr>"

text \<open>The effects of a run that handled \<open>m\<close> replies and sent \<open>m'\<close> requests.\<close>

definition ran :: "feed_item list \<Rightarrow> nat \<Rightarrow> nat \<Rightarrow> app_state \<Rightarrow> app_state" where
  "ran xs m m' s =
     s\<lparr>newsGrid := newsGrid s @ Translating #
          map (\<lambda>j. TranslatingPct (progress_at (Snapshot xs) (j * batchSize))) [0..<m],
       sent := sent s @ map (\<lambda>j. PostTranslate (batch_at xs j)) [0..<m']\<rparr>"

text \<open>The percentages among a sequence of views, and those written between two states.\<close>

fun percentages :: "view list \<Rightarrow> progress list" where
  "percentages [] = []"
| "percentages (TranslatingPct p # vs) = p # percentages vs"
| "percentages (v # vs) = percentages vs"

definition emitted :: "app_state \<Rightarrow> app_state \<Rightarrow> progress list" where
  "emitted s s' = percentages (drop (length (newsGrid s)) (newsGrid s'))"

text \<open>
  The contract of the translation endpoint: a reply that carries an array of items
  carries one item per item of the batch, in the same order, with the same \<open>url\<close>.
\<close>

fun honours_contract :: "feed_item list \<Rightarrow> reply \<Rightarrow> bool" where
  "honours_contract batch (Parsed status (JsonValue (ItemsArray ys))) =
     (map url ys = map url batch)"
| "honours_contract batch r = True"

text \<open>A reply that parses as JSON and has no \<open>items\<close> (absent or falsy).\<close>

fun lacks_items :: "reply \<Rightarrow> bool" where
  "lacks_items (Parsed status (JsonValue ItemsFalsy)) = True"
| "lacks_items r = False"

text \<open>The number of items in the batches \<open>0, \<dots>, k\<close>: those processed once batch \<open>k\<close> is done.\<close>

definition processed_after :: "feed_item list \<Rightarrow> nat \<Rightarrow> nat" where
  "processed_after xs k = length (concat (map (batch_at xs) [0..<Suc k]))"

section \<open>Sample data\<close>

definition sample_item :: "nat \<Rightarrow> feed_item" where
  "sample_item n =
     \<lparr>url = ''https://example.org/'' @ replicate n CHR ''x'',
      source = (if even n then ''rss'' else ''reddit''),
      source_name = ''Example'', title = ''Title'',
      description = None, author = None, published_at = None, fetched_at = Some ''2024''\<rparr>"

definition sample_feed :: "nat \<Rightarrow> feed_item list" where
  "sample_feed n = map sample_item [0..<n]"

definition sample_state :: "lang \<Rightarrow> nat \<Rightarrow> app_state" where
  "sample_state l n =
     \<lparr>originalNewsData = Snapshot (sample_feed n), newsData = sample_feed n,
      currentFilter = ''all'', currentLang = l, newsGrid = [], sent = []\<rparr>"

definition ru :: "feed_item \<Rightarrow> feed_item" where
  "ru item = item\<lparr>title := ''Zagolovok''\<rparr>"

definition translate_all :: translator where
  "translate_all k batch = Parsed 200 (JsonValue (ItemsArray (map ru batch)))"

definition skip_second :: translator where
  "skip_second k batch =
     (if k = 1 then Parsed 500 (JsonValue ItemsFalsy) else translate_all k batch)"

definition reject_first :: translator where
  "reject_first k batch = (if k = 0 then Rejected else translate_all k batch)"

definition reject_second :: translator where
  "reject_second k batch = (if k = 1 then Rejected else translate_all k batch)"

definition drop_all :: translator where
  "drop_all k batch = Parsed 200 (JsonValue (ItemsArray []))"

definition first_only :: translator where
  "first_only k batch = Parsed 200 (JsonValue (ItemsArray (map ru (take 1 batch))))"

text \<open>
  The state after a load whose payload was \<open>{"items": 5}\<close>: the error message is
  shown and \<open>originalNewsData\<close> holds the number.
\<close>

definition scalar_state :: app_state where
  "scalar_state =
     loadNews False (Parsed 200 (JsonValue ItemsScalar)) translate_all (sample_state EN 2)"




section \<open>The page with its arrays and item objects\<close>

text \<open>
  In the state above a variable holds a list of items, a value. In the program it
  holds a reference to an array object, whose elements are references to item objects:
  \<open>slice\<close> and the spread make a new array with the same item objects, \<open>push\<close> writes
  to the array it is called on, and \<open>newsData = translatedItems\<close> makes two variables
  name one array. Whether \<open>originalNewsData\<close> is written in place is a question about
  these objects, so the functions are given once more over a store: \<open>arrays\<close> maps the
  address of an array to the addresses of its elements, \<open>objects\<close> the address of an
  item to its fields, and every address below \<open>fresh\<close> is allocated. \<open>originalNewsData\<close>
  holds an array or, after a payload whose \<open>items\<close> is a number, a scalar.
\<close>

type_synonym addr = nat

datatype jsref = ArrayAt addr | ScalarValue

record page =
  arrays :: "addr \<Rightarrow> addr list"
  objects :: "addr \<Rightarrow> feed_item"
  fresh :: addr
  originalNewsData_at :: jsref
  newsData_at :: addr
  filter_of :: string
  lang_of :: lang
  grid_log :: "view list"
  request_log :: "request list"

text \<open>
  A new array with the given elements (an array literal, \<open>slice\<close>, \<open>filter\<close>, the
  spread), \<open>a.push(...refs)\<close>, and the array of new item objects that parsing a JSON
  body yields.
\<close>

definition alloc_array :: "addr list \<Rightarrow> page \<Rightarrow> addr \<times> page" where
  "alloc_array refs p =
     (fresh p, p\<lparr>arrays := (arrays p)(fresh p := refs), fresh := Suc (fresh p)\<rparr>)"

definition push :: "addr \<Rightarrow> addr list \<Rightarrow> page \<Rightarrow> page" where
  "push a refs p = p\<lparr>arrays := (arrays p)(a := arrays p a @ refs)\<rparr>"

definition parse_items :: "feed_item list \<Rightarrow> page \<Rightarrow> addr \<times> page" where
  "parse_items ys p =
     alloc_array [fresh p..<fresh p + length ys]
       (p\<lparr>objects := (\<lambda>r. if fresh p \<le> r \<and> r < fresh p + length ys
                            then ys ! (r - fresh p) else objects p r),
          fresh := fresh p + length ys\<rparr>)"

text \<open>
  The items an array holds, and the state of values a page stands for.
\<close>

definition elements :: "page \<Rightarrow> addr \<Rightarrow> feed_item list" where
  "elements p a = map (objects p) (arrays p a)"

definition original_value :: "page \<Rightarrow> stored" where
  "original_value p =
     (case originalNewsData_at p of
        ArrayAt a \<Rightarrow> Snapshot (elements p a)
      | ScalarValue \<Rightarrow> Scalar)"

definition value_of :: "page \<Rightarrow> app_state" where
  "value_of p =
     \<lparr>originalNewsData = original_value p, newsData = elements p (newsData_at p),
      currentFilter = filter_of p, currentLang = lang_of p,
      newsGrid = grid_log p, sent = request_log p\<rparr>"

definition display_view_h :: "view \<Rightarrow> page \<Rightarrow> page" where
  "display_view_h v p = p\<lparr>grid_log := grid_log p @ [v]\<rparr>"

definition fetch_h :: "request \<Rightarrow> page \<Rightarrow> page" where
  "fetch_h r p = p\<lparr>request_log := request_log p @ [r]\<rparr>"

text \<open>
  \<open>renderNews\<close>: with the filter \<open>all\<close> the local \<open>filtered\<close> is \<open>newsData\<close> itself,
  otherwise the new array \<open>filter\<close> returns.
\<close>

definition filtered_h :: "page \<Rightarrow> addr \<times> page" where
  "filtered_h p =
     (if filter_of p = ''all'' then (newsData_at p, p)
      else alloc_array
             (filter (\<lambda>r. source (objects p r) = filter_of p) (arrays p (newsData_at p))) p)"

definition renderNews_h :: "page \<Rightarrow> page" where
  "renderNews_h p =
     (case filtered_h p of (a, p1) \<Rightarrow>
        if length (arrays p1 a) = 0 then display_view_h NoNews p1
        else display_view_h (Cards (elements p1 a)) p1)"

definition filterClick_h :: "string \<Rightarrow> page \<Rightarrow> page" where
  "filterClick_h f p = renderNews_h (p\<lparr>filter_of := f\<rparr>)"

text \<open>
  A suspended \<open>translateNews\<close>: the loop index and the arrays its locals \<open>batch\<close> and
  \<open>translatedItems\<close> refer to, and whether \<open>loadNews\<close> awaits it (then an exception
  that escapes it lands in the \<open>catch\<close> block of \<open>loadNews\<close>).
\<close>

record htask =
  h_i :: nat
  h_batch :: addr
  h_translatedItems :: addr
  awaited_by_load :: bool

datatype hstep = HAwaiting htask page | HReturned page | HUncaught page

text \<open>
  The spread \<open>[...originalNewsData]\<close> and the \<open>catch\<close> block of \<open>translateNews\<close>.
\<close>

definition spread_h :: "page \<Rightarrow> (addr \<times> page) option" where
  "spread_h p =
     (case originalNewsData_at p of
        ScalarValue \<Rightarrow> None
      | ArrayAt a \<Rightarrow> Some (alloc_array (arrays p a) p))"

definition fallback_h :: "page \<Rightarrow> hstep" where
  "fallback_h p =
     (case spread_h p of
        None \<Rightarrow> HUncaught p
      | Some (c, p1) \<Rightarrow> HReturned (renderNews_h (p1\<lparr>newsData_at := c\<rparr>)))"

text \<open>
  The loop head: \<open>slice\<close> makes the batch, a new array; leaving the loop assigns the
  array \<open>translatedItems\<close> itself to \<open>newsData\<close>.
\<close>

definition next_batch_h :: "nat \<Rightarrow> addr \<Rightarrow> bool \<Rightarrow> page \<Rightarrow> hstep" where
  "next_batch_h i acc by_load p =
     (if less_length i (original_value p) then
        (case originalNewsData_at p of
           ScalarValue \<Rightarrow> fallback_h p
         | ArrayAt a \<Rightarrow>
             (case alloc_array (take batchSize (drop i (arrays p a))) p of (b, p1) \<Rightarrow>
                HAwaiting
                  \<lparr>h_i = i, h_batch = b, h_translatedItems = acc, awaited_by_load = by_load\<rparr>
                  (fetch_h (PostTranslate (elements p1 b)) p1)))
      else HReturned (renderNews_h (p\<lparr>newsData_at := acc\<rparr>)))"

definition translateNews_start_h :: "bool \<Rightarrow> page \<Rightarrow> hstep" where
  "translateNews_start_h by_load p =
     (case alloc_array [] (display_view_h Translating p) of (acc, p1) \<Rightarrow>
        next_batch_h 0 acc by_load p1)"

text \<open>
  The rest of an iteration: \<open>translatedItems.push(...(data.items || batch))\<close> writes
  to the array \<open>translatedItems\<close>, either the item objects of the batch or the new ones
  parsed from the reply.
\<close>

fun received_h :: "htask \<Rightarrow> reply \<Rightarrow> page \<Rightarrow> page option" where
  "received_h t Rejected p = None"
| "received_h t (NotJson status) p = None"
| "received_h t (Parsed status JsonNull) p = None"
| "received_h t (Parsed status (JsonValue ItemsFalsy)) p =
     Some (push (h_translatedItems t) (arrays p (h_batch t)) p)"
| "received_h t (Parsed status (JsonValue (ItemsArray ys))) p =
     (case parse_items ys p of (d, p1) \<Rightarrow>
        Some (push (h_translatedItems t) (arrays p1 d) p1))"
| "received_h t (Parsed status (JsonValue ItemsScalar)) p = None"

definition translateNews_resume_h :: "htask \<Rightarrow> reply \<Rightarrow> page \<Rightarrow> hstep" where
  "translateNews_resume_h t r p =
     (case received_h t r p of
        None \<Rightarrow> fallback_h p
      | Some p1 \<Rightarrow>
          next_batch_h (h_i t + batchSize) (h_translatedItems t) (awaited_by_load t)
            (display_view_h (TranslatingPct (progress_at (original_value p1) (h_i t))) p1))"

text \<open>
  \<open>loadNews\<close> up to its await, and from the reply on: \<open>data.items || []\<close> is the parsed
  array or a new empty one, and \<open>newsData\<close> a copy of it.
\<close>

definition loadNews_start_h :: "bool \<Rightarrow> page \<Rightarrow> page" where
  "loadNews_start_h forceRefresh p = fetch_h (GetNews forceRefresh) (display_view_h Loading p)"

definition load_failed_h :: "page \<Rightarrow> hstep" where
  "load_failed_h p = HReturned (display_view_h ErrorView p)"

definition loaded_h :: "addr \<Rightarrow> page \<Rightarrow> hstep" where
  "loaded_h a p =
     (case alloc_array (arrays p a) (p\<lparr>originalNewsData_at := ArrayAt a\<rparr>) of (c, p1) \<Rightarrow>
        if lang_of p1 = RU then translateNews_start_h True (p1\<lparr>newsData_at := c\<rparr>)
        else HReturned (renderNews_h (p1\<lparr>newsData_at := c\<rparr>)))"

fun loadNews_resume_h :: "reply \<Rightarrow> page \<Rightarrow> hstep" where
  "loadNews_resume_h Rejected p = load_failed_h p"
| "loadNews_resume_h (NotJson status) p = load_failed_h p"
| "loadNews_resume_h (Parsed status JsonNull) p = load_failed_h p"
| "loadNews_resume_h (Parsed status (JsonValue ItemsFalsy)) p =
     (case alloc_array [] p of (a, p1) \<Rightarrow> loaded_h a p1)"
| "loadNews_resume_h (Parsed status (JsonValue (ItemsArray ys))) p =
     (case parse_items ys p of (a, p1) \<Rightarrow> loaded_h a p1)"
| "loadNews_resume_h (Parsed status (JsonValue ItemsScalar)) p =
     load_failed_h (p\<lparr>originalNewsData_at := ScalarValue\<rparr>)"

text \<open>
  The click handler of the language button.
\<close>

definition langClick_start_h :: "page \<Rightarrow> hstep" where
  "langClick_start_h p =
     (let newLang = (if lang_of p = EN then RU else EN);
          p1 = p\<lparr>lang_of := newLang\<rparr>
      in if newLang = RU \<and> less_length 0 (original_value p1)
         then translateNews_start_h False p1
         else if newLang = EN then
           (case spread_h p1 of
              None \<Rightarrow> HUncaught p1
            | Some (c, p2) \<Rightarrow> HReturned (renderNews_h (p2\<lparr>newsData_at := c\<rparr>)))
         else HReturned p1)"

section \<open>The events of the page\<close>

text \<open>
  The page handles one event at a time, in any order: a call of \<open>loadNews\<close> (page
  load, the refresh button, saved settings), the reply to a feed request, a click on
  the language button or on a filter button, and the reply to the request of one of
  the translations in flight. \<open>inflight\<close> holds the suspended translations, \<open>loading\<close>
  counts the feed requests without a reply. \<open>fire\<close> is \<open>None\<close> for an event that cannot
  happen in the state (a reply nobody waits for).
\<close>

record sys =
  page :: page
  inflight :: "htask list"
  loading :: nat


text \<open>
  What is left when a call ends or suspends. An exception that escapes a
  \<open>translateNews\<close> awaited by \<open>loadNews\<close> lands in the \<open>catch\<close> block of \<open>loadNews\<close>,
  which shows the error message; one that escapes the click handler is unhandled.
\<close>

fun settle :: "bool \<Rightarrow> hstep \<Rightarrow> page" where
  "settle by_load (HAwaiting t p) = p"
| "settle by_load (HReturned p) = p"
| "settle by_load (HUncaught p) = (if by_load then display_view_h ErrorView p else p)"






text \<open>
  What one event leaves alone. \<open>kept w p p'\<close>: every array allocated in \<open>p\<close> and not
  in \<open>w\<close> has the same elements in \<open>p'\<close>, every item object of \<open>p\<close> the same fields, and
  \<open>newsData\<close> is the array it was, one of \<open>w\<close>, or a new one. \<open>task_kept\<close>: a translation
  that suspends accumulates in an array of \<open>w\<close> or in a new one.
\<close>

fun page_of :: "hstep \<Rightarrow> page" where
  "page_of (HAwaiting t p) = p"
| "page_of (HReturned p) = p"
| "page_of (HUncaught p) = p"

definition kept :: "addr set \<Rightarrow> page \<Rightarrow> page \<Rightarrow> bool" where
  "kept w p p' =
     (fresh p \<le> fresh p'
      \<and> (\<forall>a < fresh p. a \<notin> w \<longrightarrow> arrays p' a = arrays p a)
      \<and> (\<forall>r < fresh p. objects p' r = objects p r)
      \<and> (newsData_at p' = newsData_at p \<or> newsData_at p' \<in> w \<or> fresh p \<le> newsData_at p')
      \<and> (newsData_at p < fresh p \<and> (\<forall>a \<in> w. a < fresh p) \<longrightarrow> newsData_at p' < fresh p'))"

definition task_kept :: "addr set \<Rightarrow> page \<Rightarrow> hstep \<Rightarrow> bool" where
  "task_kept w p st =
     (\<forall>t q. st = HAwaiting t q \<longrightarrow>
        (h_translatedItems t \<in> w \<or> fresh p \<le> h_translatedItems t)
        \<and> ((\<forall>a \<in> w. a < fresh p) \<longrightarrow> h_translatedItems t < fresh q))"






text \<open>
  The conditions under which a page and a suspended translation stand for a state
  and a task of values: the variables refer to allocated arrays of allocated items,
  and \<open>translatedItems\<close> is an array of its own.
\<close>

definition wf_page :: "page \<Rightarrow> bool" where
  "wf_page p =
     (newsData_at p < fresh p
      \<and> (\<forall>a. originalNewsData_at p = ArrayAt a \<longrightarrow> a < fresh p)
      \<and> (\<forall>a. \<forall>r \<in> set (arrays p a). r < fresh p))"

definition task_value :: "htask \<Rightarrow> page \<Rightarrow> task" where
  "task_value t p =
     \<lparr>t_i = h_i t, t_batch = elements p (h_batch t),
      translatedItems = elements p (h_translatedItems t)\<rparr>"

fun value_step :: "hstep \<Rightarrow> step" where
  "value_step (HAwaiting t p) = Awaiting (task_value t p) (value_of p)"
| "value_step (HReturned p) = Completed (Returned (value_of p))"
| "value_step (HUncaught p) = Completed (Uncaught (value_of p))"

definition wf_task :: "htask \<Rightarrow> page \<Rightarrow> bool" where
  "wf_task t p =
     (h_batch t < fresh p \<and> h_translatedItems t < fresh p
      \<and> h_translatedItems t \<noteq> h_batch t
      \<and> h_translatedItems t \<noteq> newsData_at p
      \<and> originalNewsData_at p \<noteq> ArrayAt (h_translatedItems t))"

subsection \<open>Sample runs\<close>





section \<open>Rounding is monotone\<close>

lemma ilog2_bounds:
  assumes "0 < x"
  shows "2 powi ilog2 x \<le> x \<and> x < 2 powi (ilog2 x + 1)"
proof (cases "1 \<le> x")
  case True
  define n where "n = \<lfloor>x\<rfloor>"
  have n: "0 < n" "of_int n \<le> x" "x < of_int (n + 1)"
    using True by (auto simp: n_def) linarith
  have b: "0 < bitlen n" using n(1) by (simp add: bitlen_alt_def)
  from bitlen_bounds [OF n(1)] have lo: "2 ^ nat (bitlen n - 1) \<le> n" and hi: "n + 1 \<le> 2 ^ nat (bitlen n)"
    by auto
  have "(2::rat) powi (bitlen n - 1) = of_int (2 ^ nat (bitlen n - 1))"
    using b by (simp add: power_int_def)
  also have "\<dots> \<le> of_int n" using lo by (simp only: of_int_le_iff)
  finally have 1: "(2::rat) powi (bitlen n - 1) \<le> x" using n(2) by simp
  have "x < of_int (n + 1)" by (rule n(3))
  also have "\<dots> \<le> of_int (2 ^ nat (bitlen n))" using hi by (simp only: of_int_le_iff)
  also have "\<dots> = (2::rat) powi (bitlen n)" using b by (simp add: power_int_def)
  finally have 2: "x < (2::rat) powi (bitlen n)" .
  show ?thesis using True 1 2 by (simp add: ilog2_def n_def)
next
  case False
  define y where "y = 1 / x"
  define m where "m = \<lceil>y\<rceil> - 1"
  have y: "1 < y" using False assms by (simp add: y_def)
  have m: "0 < m" "of_int m < y" "y \<le> of_int (m + 1)"
    using y ceiling_correct [of y] by (auto simp: m_def less_ceiling_iff)
  have b: "0 < bitlen m" using m(1) by (simp add: bitlen_alt_def)
  from bitlen_bounds [OF m(1)] have lo: "2 ^ nat (bitlen m - 1) \<le> m" and hi: "m + 1 \<le> 2 ^ nat (bitlen m)"
    by auto
  have "(2::rat) powi (bitlen m - 1) = of_int (2 ^ nat (bitlen m - 1))"
    using b by (simp add: power_int_def)
  also have "\<dots> \<le> of_int m" using lo by (simp only: of_int_le_iff)
  finally have 1: "(2::rat) powi (bitlen m - 1) < y" using m(2) by simp
  have "y \<le> of_int (m + 1)" by (rule m(3))
  also have "\<dots> \<le> of_int (2 ^ nat (bitlen m))" using hi by (simp only: of_int_le_iff)
  also have "\<dots> = (2::rat) powi (bitlen m)" using b by (simp add: power_int_def)
  finally have 2: "y \<le> (2::rat) powi (bitlen m)" .
  have x: "x = 1 / y" using assms by (simp add: y_def)
  have p: "(0::rat) < 2 powi (bitlen m)" "(0::rat) < 2 powi (bitlen m - 1)" by simp_all
  have "(2::rat) powi (- bitlen m) = 1 / 2 powi (bitlen m)"
    by (simp add: power_int_minus_divide)
  also have "\<dots> \<le> 1 / y" using 2 y by (intro divide_left_mono) auto
  finally have 3: "(2::rat) powi (- bitlen m) \<le> x" using x by simp
  have "x = 1 / y" by (rule x)
  also have "\<dots> < 1 / 2 powi (bitlen m - 1)" using 1 p y by (intro divide_strict_left_mono) auto
  also have "\<dots> = (2::rat) powi (- bitlen m + 1)"
    using power_int_minus_divide [of "2::rat" "bitlen m - 1"] by simp
  finally have 4: "x < (2::rat) powi (- bitlen m + 1)" .
  show ?thesis using False 3 4 by (simp add: ilog2_def m_def y_def)
qed

lemma ilog2_mono:
  assumes "0 < x" and "x \<le> y"
  shows "ilog2 x \<le> ilog2 y"
proof (rule ccontr)
  assume "\<not> ilog2 x \<le> ilog2 y"
  then have "ilog2 y + 1 \<le> ilog2 x" by simp
  then have "(2::rat) powi (ilog2 y + 1) \<le> 2 powi ilog2 x"
    by (intro power_int_increasing) auto
  moreover have "y < 2 powi (ilog2 y + 1)" using ilog2_bounds [of y] assms by simp
  moreover have "2 powi ilog2 x \<le> x" using ilog2_bounds [of x] assms by simp
  ultimately show False using assms by simp
qed

lemma rne_range: "\<lfloor>q\<rfloor> \<le> rne q \<and> rne q \<le> \<lfloor>q\<rfloor> + 1"
  by (simp add: rne_def Let_def)

lemma rne_of_int [simp]: "rne (of_int k) = k"
  by (simp add: rne_def)

lemma rne_mono:
  assumes "q \<le> q'"
  shows "rne q \<le> rne q'"
proof (cases "\<lfloor>q\<rfloor> = \<lfloor>q'\<rfloor>")
  case True
  then show ?thesis using assms by (auto simp: rne_def Let_def)
next
  case False
  then have "\<lfloor>q\<rfloor> + 1 \<le> \<lfloor>q'\<rfloor>" using floor_mono [OF assms] by simp
  then show ?thesis using rne_range [of q] rne_range [of q'] by linarith
qed

lemma fl_bounds:
  assumes "0 < x"
  shows "2 powi ilog2 x \<le> fl x \<and> fl x \<le> 2 powi (ilog2 x + 1)"
proof -
  define u :: rat where "u = 2 powi (ilog2 x - 52)"
  have u: "0 < u" by (simp add: u_def)
  have fl: "fl x = of_int (rne (x / u)) * u"
    using assms by (simp add: fl_def u_def Let_def)
  have lo: "2 powi ilog2 x = of_int (2 ^ 52) * u"
    using power_int_add [of "2::rat" 52 "ilog2 x - 52"] by (simp add: u_def)
  have hi: "2 powi (ilog2 x + 1) = of_int (2 ^ 53) * u"
    using power_int_add [of "2::rat" 53 "ilog2 x - 52"] by (simp add: u_def add.commute)
  have "of_int (2 ^ 52) \<le> x / u"
    using ilog2_bounds [OF assms] u lo by (simp add: pos_le_divide_eq)
  then have "rne (of_int (2 ^ 52)) \<le> rne (x / u)" by (rule rne_mono)
  then have 1: "(of_int (2 ^ 52) :: rat) \<le> of_int (rne (x / u))"
    by (simp only: rne_of_int of_int_le_iff)
  have "x / u \<le> of_int (2 ^ 53)"
    using ilog2_bounds [OF assms] u hi by (simp add: pos_divide_le_eq)
  then have "rne (x / u) \<le> rne (of_int (2 ^ 53))" by (rule rne_mono)
  then have 2: "(of_int (rne (x / u)) :: rat) \<le> of_int (2 ^ 53)"
    by (simp only: rne_of_int of_int_le_iff)
  show ?thesis
    using 1 2 u unfolding fl lo hi by (simp add: mult_right_mono)
qed

lemma fl_mono:
  assumes "0 < x" and "x \<le> y"
  shows "fl x \<le> fl y"
proof (cases "ilog2 x = ilog2 y")
  case True
  define u :: rat where "u = 2 powi (ilog2 x - 52)"
  have u: "0 < u" by (simp add: u_def)
  have "x / u \<le> y / u" using assms u by (simp add: divide_right_mono)
  then have "rne (x / u) \<le> rne (y / u)" by (rule rne_mono)
  then have "(of_int (rne (x / u)) :: rat) * u \<le> of_int (rne (y / u)) * u"
    using u by (simp add: mult_right_mono)
  moreover have "0 < y" using assms by simp
  ultimately show ?thesis using assms(1) True by (simp add: fl_def u_def Let_def)
next
  case False
  then have "ilog2 x + 1 \<le> ilog2 y" using ilog2_mono [OF assms] by simp
  then have "(2::rat) powi (ilog2 x + 1) \<le> 2 powi ilog2 y"
    by (intro power_int_increasing) auto
  moreover have "fl x \<le> 2 powi (ilog2 x + 1)" using fl_bounds [of x] assms by simp
  moreover have "2 powi ilog2 y \<le> fl y" using fl_bounds [of y] assms by simp
  ultimately show ?thesis by simp
qed

lemma fl_pos:
  assumes "0 < x"
  shows "0 < fl x"
proof -
  have "(0::rat) < 2 powi ilog2 x" by simp
  also have "\<dots> \<le> fl x" using fl_bounds [OF assms] by simp
  finally show ?thesis .
qed

lemma fl_1: "fl 1 = 1"
  by code_simp

lemma fl_100: "fl 100 = 100"
  by code_simp

text \<open>The binary64 values of \<open>1 / 10\<close> and \<open>1 / 3\<close>, as a check of the definition.\<close>

lemma fl_examples:
  "fl (1 / 10) = 3602879701896397 / 2 ^ 55 \<and> fl (1 / 3) = 6004799503160661 / 2 ^ 54"
  by code_simp

lemma js_round_mono: "x \<le> y \<Longrightarrow> js_round x \<le> js_round y"
  by (simp add: js_round_def floor_mono)

lemma percent_mono:
  assumes "0 < n" and "0 < a" and "a \<le> b"
  shows "percent a n \<le> percent b n"
proof -
  have "(of_nat a :: rat) / of_nat n \<le> of_nat b / of_nat n"
    using assms by (simp add: divide_right_mono)
  moreover have "(0::rat) < of_nat a / of_nat n" using assms by simp
  ultimately have 1: "fl (of_nat a / of_nat n) \<le> fl (of_nat b / of_nat n)"
    and 0: "0 < fl (of_nat a / of_nat n)"
    by (simp_all add: fl_mono fl_pos)
  from 1 0 have "fl (fl (of_nat a / of_nat n) * 100) \<le> fl (fl (of_nat b / of_nat n) * 100)"
    by (intro fl_mono) auto
  then show ?thesis
    unfolding percent_def by (intro nat_mono min.mono js_round_mono) auto
qed

lemma percent_full:
  assumes "0 < n" and "n \<le> a"
  shows "percent a n = 100"
proof -
  have "(1::rat) \<le> of_nat a / of_nat n" using assms by simp
  then have "fl 1 \<le> fl (of_nat a / of_nat n)" by (intro fl_mono) auto
  then have "(100::rat) \<le> fl (of_nat a / of_nat n) * 100" by (simp add: fl_1)
  then have "fl 100 \<le> fl (fl (of_nat a / of_nat n) * 100)" by (intro fl_mono) auto
  then have "js_round 100 \<le> js_round (fl (fl (of_nat a / of_nat n) * 100))"
    by (intro js_round_mono) (simp add: fl_100)
  moreover have "js_round 100 = 100" by code_simp
  ultimately show ?thesis by (simp add: percent_def)
qed


section \<open>The run of the translation loop in closed form\<close>

lemma batchSize_pos [simp]: "0 < batchSize"
  by (simp add: batchSize_def)

lemma less_batch_count: "k < batch_count xs \<longleftrightarrow> k * batchSize < length xs"
  by (auto simp: batch_count_def batchSize_def)

lemma renderNews_fields [simp]:
  "originalNewsData (renderNews s) = originalNewsData s"
  "newsData (renderNews s) = newsData s"
  "currentFilter (renderNews s) = currentFilter s"
  "currentLang (renderNews s) = currentLang s"
  "sent (renderNews s) = sent s"
  by (simp_all add: renderNews_def display_view_def)

lemma display_view_fields [simp]:
  "originalNewsData (display_view v s) = originalNewsData s"
  "newsData (display_view v s) = newsData s"
  "currentFilter (display_view v s) = currentFilter s"
  "currentLang (display_view v s) = currentLang s"
  "sent (display_view v s) = sent s"
  "newsGrid (display_view v s) = newsGrid s @ [v]"
  by (simp_all add: display_view_def)

lemma fetch_fields [simp]:
  "originalNewsData (fetch r s) = originalNewsData s"
  "newsData (fetch r s) = newsData s"
  "currentFilter (fetch r s) = currentFilter s"
  "currentLang (fetch r s) = currentLang s"
  "sent (fetch r s) = sent s @ [r]"
  "newsGrid (fetch r s) = newsGrid s"
  by (simp_all add: fetch_def)

lemma run_all_answered:
  assumes "originalNewsData s = Snapshot xs"
    and "t_i t = k * batchSize" and "t_batch t = batch_at xs k"
    and "k < batch_count xs"
    and "\<forall>j. k \<le> j \<and> j < batch_count xs \<longrightarrow> answer backend xs j \<noteq> None"
  shows "run_from backend (Awaiting t s) =
     Returned (renderNews
       ((advanced xs k (batch_count xs) (batch_count xs) s)
          \<lparr>newsData := translatedItems t @
             concat (map (\<lambda>j. the (answer backend xs j)) [k..<batch_count xs])\<rparr>))"
  using assms
proof (induction "batch_count xs - k" arbitrary: k t s)
  case 0
  then show ?case by simp
next
  case (Suc n)
  from Suc.prems obtain ys where ys: "answer backend xs k = Some ys"
    by (cases "answer backend xs k") auto
  have k: "t_i t div batchSize = k"
    using Suc.prems by (simp add: batchSize_def)
  let ?s1 = "display_view (TranslatingPct (progress_at (Snapshot xs) (k * batchSize))) s"
  have resume: "translateNews_resume t (backend (t_i t div batchSize) (t_batch t)) s =
      next_batch (Suc k * batchSize) (translatedItems t @ ys) ?s1"
    using ys Suc.prems by (simp add: translateNews_resume_def answer_def add.commute)
  have upt: "[k..<batch_count xs] = k # [Suc k..<batch_count xs]"
    using Suc.prems by (simp add: upt_conv_Cons)
  show ?case
  proof (cases "Suc k < batch_count xs")
    case True
    let ?t = "\<lparr>t_i = Suc k * batchSize, t_batch = batch_at xs (Suc k),
               translatedItems = translatedItems t @ ys\<rparr>"
    let ?s2 = "fetch (PostTranslate (batch_at xs (Suc k))) ?s1"
    have nb: "next_batch (Suc k * batchSize) (translatedItems t @ ys) ?s1 = Awaiting ?t ?s2"
      using True Suc.prems
      by (simp add: next_batch_def less_length_def less_batch_count batch_at_def)
    have "run_from backend (Awaiting ?t ?s2) =
       Returned (renderNews
         ((advanced xs (Suc k) (batch_count xs) (batch_count xs) ?s2)
            \<lparr>newsData := translatedItems ?t @
               concat (map (\<lambda>j. the (answer backend xs j)) [Suc k..<batch_count xs])\<rparr>))"
      using Suc.hyps(2) Suc.prems True
      by (intro Suc.hyps(1)) auto
    moreover have "advanced xs (Suc k) (batch_count xs) (batch_count xs) ?s2 =
        advanced xs k (batch_count xs) (batch_count xs) s"
      using True upt
      by (simp add: advanced_def display_view_def fetch_def upt_conv_Cons [of "Suc k"])
    ultimately show ?thesis
      using resume nb ys upt by simp
  next
    case False
    with Suc.prems have last: "batch_count xs = Suc k" by simp
    have nb: "next_batch (Suc k * batchSize) (translatedItems t @ ys) ?s1 =
        Completed (Returned (renderNews (?s1\<lparr>newsData := translatedItems t @ ys\<rparr>)))"
      using last less_batch_count [of "Suc k" xs] Suc.prems
      by (simp add: next_batch_def less_length_def)
    have "advanced xs k (batch_count xs) (batch_count xs) s = ?s1"
      using last by (simp add: advanced_def display_view_def)
    then show ?thesis
      using resume nb ys last by simp
  qed
qed


lemma run_first_throw:
  assumes "originalNewsData s = Snapshot xs"
    and "t_i t = k * batchSize" and "t_batch t = batch_at xs k"
    and "k \<le> j0" and "j0 < batch_count xs"
    and "answer backend xs j0 = None"
    and "\<forall>j. k \<le> j \<and> j < j0 \<longrightarrow> answer backend xs j \<noteq> None"
  shows "run_from backend (Awaiting t s) =
     Returned (renderNews ((advanced xs k j0 (Suc j0) s)\<lparr>newsData := xs\<rparr>))"
  using assms
proof (induction "j0 - k" arbitrary: k t s)
  case 0
  then have "k = j0" by simp
  with 0 have "translateNews_resume t (backend (t_i t div batchSize) (t_batch t)) s
      = Completed (fallback s)"
    by (simp add: translateNews_resume_def answer_def)
  moreover have "fallback s = Returned (renderNews (s\<lparr>newsData := xs\<rparr>))"
    using 0 by (simp add: fallback_def)
  moreover have "advanced xs k j0 (Suc j0) s = s"
    using \<open>k = j0\<close> by (simp add: advanced_def)
  ultimately show ?case by simp
next
  case (Suc n)
  then have lt: "k < j0" and lt': "Suc k < batch_count xs" by simp_all
  from Suc.prems lt obtain ys where ys: "answer backend xs k = Some ys"
    by (cases "answer backend xs k") auto
  let ?s1 = "display_view (TranslatingPct (progress_at (Snapshot xs) (k * batchSize))) s"
  let ?t = "\<lparr>t_i = Suc k * batchSize, t_batch = batch_at xs (Suc k),
             translatedItems = translatedItems t @ ys\<rparr>"
  let ?s2 = "fetch (PostTranslate (batch_at xs (Suc k))) ?s1"
  have resume: "translateNews_resume t (backend (t_i t div batchSize) (t_batch t)) s =
      next_batch (Suc k * batchSize) (translatedItems t @ ys) ?s1"
    using ys Suc.prems by (simp add: translateNews_resume_def answer_def add.commute)
  have nb: "next_batch (Suc k * batchSize) (translatedItems t @ ys) ?s1 = Awaiting ?t ?s2"
    using lt' Suc.prems
    by (simp add: next_batch_def less_length_def less_batch_count batch_at_def)
  have "run_from backend (Awaiting ?t ?s2) =
     Returned (renderNews ((advanced xs (Suc k) j0 (Suc j0) ?s2)\<lparr>newsData := xs\<rparr>))"
    using Suc.hyps(2) Suc.prems lt
    by (intro Suc.hyps(1)) auto
  moreover have "advanced xs (Suc k) j0 (Suc j0) ?s2 = advanced xs k j0 (Suc j0) s"
    using lt
    by (simp add: advanced_def display_view_def fetch_def upt_conv_Cons [of k]
        upt_conv_Cons [of "Suc k"] del: upt_Suc)
  ultimately show ?case
    using resume nb by simp
qed

lemma start_Awaiting:
  assumes "originalNewsData s = Snapshot xs" and "0 < batch_count xs"
  shows "translateNews_start s =
     Awaiting \<lparr>t_i = 0, t_batch = batch_at xs 0, translatedItems = []\<rparr>
       (fetch (PostTranslate (batch_at xs 0)) (display_view Translating s))"
  using assms
  by (simp add: translateNews_start_def next_batch_def less_length_def less_batch_count
      batch_at_def)

lemma advanced_start:
  "0 < m' \<Longrightarrow>
   advanced xs 0 m m' (fetch (PostTranslate (batch_at xs 0)) (display_view Translating s))
     = ran xs m m' s"
  by (simp add: advanced_def ran_def fetch_def display_view_def upt_conv_Cons [of 0]
      del: upt_Suc)

lemma translateNews_all_answered:
  assumes "originalNewsData s = Snapshot xs"
    and "\<forall>j < batch_count xs. answer backend xs j \<noteq> None"
  shows "translateNews backend s =
     Returned (renderNews
       ((ran xs (batch_count xs) (batch_count xs) s)
          \<lparr>newsData := concat (map (\<lambda>j. the (answer backend xs j)) [0..<batch_count xs])\<rparr>))"
proof (cases "0 < batch_count xs")
  case True
  let ?t = "\<lparr>t_i = 0, t_batch = batch_at xs 0, translatedItems = []\<rparr>"
  let ?s = "fetch (PostTranslate (batch_at xs 0)) (display_view Translating s)"
  have "run_from backend (Awaiting ?t ?s) =
     Returned (renderNews
       ((advanced xs 0 (batch_count xs) (batch_count xs) ?s)
          \<lparr>newsData := translatedItems ?t @
             concat (map (\<lambda>j. the (answer backend xs j)) [0..<batch_count xs])\<rparr>))"
    using assms True by (intro run_all_answered) auto
  then show ?thesis
    using True assms(1) by (simp add: translateNews_def start_Awaiting advanced_start)
next
  case False
  then have "batch_count xs = 0" by simp
  moreover from this have "xs = []"
    using less_batch_count [of 0 xs] by simp
  ultimately show ?thesis
    using assms(1)
    by (simp add: translateNews_def translateNews_start_def next_batch_def less_length_def
        ran_def display_view_def)
qed

lemma translateNews_first_throw:
  assumes "originalNewsData s = Snapshot xs"
    and "j0 < batch_count xs" and "answer backend xs j0 = None"
    and "\<forall>j < j0. answer backend xs j \<noteq> None"
  shows "translateNews backend s =
     Returned (renderNews ((ran xs j0 (Suc j0) s)\<lparr>newsData := xs\<rparr>))"
proof -
  let ?t = "\<lparr>t_i = 0, t_batch = batch_at xs 0, translatedItems = []\<rparr>"
  let ?s = "fetch (PostTranslate (batch_at xs 0)) (display_view Translating s)"
  have pos: "0 < batch_count xs" using assms(2) by simp
  have "run_from backend (Awaiting ?t ?s) =
     Returned (renderNews ((advanced xs 0 j0 (Suc j0) ?s)\<lparr>newsData := xs\<rparr>))"
    using assms by (intro run_first_throw) auto
  then show ?thesis
    using pos assms(1) by (simp add: translateNews_def start_Awaiting advanced_start)
qed

lemma concat_batches_take:
  "concat (map (batch_at xs) [0..<m]) = take (m * batchSize) xs"
proof (induction m)
  case 0
  then show ?case by simp
next
  case (Suc m)
  have "take (m * batchSize) xs @ take batchSize (drop (m * batchSize) xs)
      = take (m * batchSize + batchSize) xs"
    by (simp add: take_add)
  with Suc show ?case
    by (simp add: batch_at_def slice_def add.commute)
qed

lemma concat_batches: "concat (map (batch_at xs) [0..<batch_count xs]) = xs"
proof -
  have "length xs \<le> batch_count xs * batchSize"
    by (simp add: batch_count_def batchSize_def)
  then show ?thesis by (simp add: concat_batches_take)
qed

section \<open>Translation keeps length and order\<close>

lemma first_throw_cases:
  obtains (all_answered) "\<forall>j < batch_count xs. answer backend xs j \<noteq> None"
  | (throws) j0 where "j0 < batch_count xs" and "answer backend xs j0 = None"
      and "\<forall>j < j0. answer backend xs j \<noteq> None"
proof (cases "\<exists>j < batch_count xs. answer backend xs j = None")
  case False
  then show ?thesis by (intro all_answered) auto
next
  case True
  define j0 where "j0 = (LEAST j. j < batch_count xs \<and> answer backend xs j = None)"
  from True have 1: "j0 < batch_count xs \<and> answer backend xs j0 = None"
    unfolding j0_def by (rule LeastI_ex)
  have "\<forall>j < j0. answer backend xs j \<noteq> None"
  proof (intro allI impI notI)
    fix j assume "j < j0" and "answer backend xs j = None"
    moreover from this 1 have "j < batch_count xs" by simp
    ultimately show False
      using not_less_Least [of j "\<lambda>j. j < batch_count xs \<and> answer backend xs j = None"]
      by (simp add: j0_def)
  qed
  with 1 show ?thesis by (intro throws [of j0]) auto
qed

lemma answer_keeps_urls:
  assumes "honours_contract (batch_at xs j) (backend j (batch_at xs j))"
    and "answer backend xs j = Some ys"
  shows "map url ys = map url (batch_at xs j)"
proof -
  have "received batch r = Some ys \<Longrightarrow> honours_contract batch r
      \<Longrightarrow> map url ys = map url batch" for batch r
    by (induction batch r rule: received.induct) simp_all
  then show ?thesis using assms by (simp add: answer_def)
qed

lemma map_concat_upt:
  assumes "\<forall>j < m. map h (f j) = map h (g j)"
  shows "map h (concat (map f [0..<m])) = map h (concat (map g [0..<m]))"
  using assms by (induction m) simp_all

text \<open>
  Claim C1, as the specification states it: for every snapshot, when the translation
  completes, the display has the length of the snapshot and the same items in the same
  order, as identified by \<open>url\<close>. The code appends what each reply carries as it is
  and never compares lengths: for three items and a translator that answers the batch
  with its first item only, the run completes with a display of one item.
\<close>

theorem translate_length_counterexample:
  "translateNews first_only (sample_state RU 3)
     = Returned (state_of (translateNews first_only (sample_state RU 3)))
   \<and> length (newsData (state_of (translateNews first_only (sample_state RU 3)))) = 1
   \<and> map url (newsData (state_of (translateNews first_only (sample_state RU 3))))
       = [url (sample_item 0)]
   \<and> length (sample_feed 3) = 3"
  by code_simp

text \<open>
  Claim C1, amended. For every snapshot \<open>xs\<close> held in \<open>originalNewsData\<close>, a run of
  \<open>translateNews\<close> returns, whether or not batches fail on the way, and the displayed
  snapshot \<open>newsData\<close> then has the length of \<open>xs\<close> and the same items in the same
  order as identified by \<open>url\<close>, provided every reply that carries items carries
  exactly one per item of the batch it answers (in the batch's order and with its
  \<open>url\<close>s, for which the specification trusts the endpoint).
\<close>

theorem translate_keeps_length_and_order:
  assumes "originalNewsData s = Snapshot xs"
    and "\<forall>k < batch_count xs. honours_contract (batch_at xs k) (backend k (batch_at xs k))"
  shows "\<exists>s'. translateNews backend s = Returned s'
           \<and> length (newsData s') = length xs
           \<and> map url (newsData s') = map url xs"
proof (cases rule: first_throw_cases [of xs backend])
  case all_answered
  let ?ys = "concat (map (\<lambda>j. the (answer backend xs j)) [0..<batch_count xs])"
  have "\<forall>j < batch_count xs. map url (the (answer backend xs j)) = map url (batch_at xs j)"
    using all_answered assms(2) answer_keeps_urls by fastforce
  then have "map url ?ys = map url (concat (map (batch_at xs) [0..<batch_count xs]))"
    by (rule map_concat_upt)
  then have urls: "map url ?ys = map url xs"
    by (simp add: concat_batches)
  then have "length ?ys = length xs"
    using length_map [of url ?ys] length_map [of url xs] by simp
  with urls show ?thesis
    using translateNews_all_answered [OF assms(1) all_answered] by simp
next
  case (throws j0)
  then show ?thesis
    using translateNews_first_throw [OF assms(1), of j0 backend] by simp
qed

theorem translate_keeps_length_and_order_witness:
  "\<exists>s'. translateNews skip_second (sample_state RU 12) = Returned s'
      \<and> length (newsData s') = length (sample_feed 12)
      \<and> map url (newsData s') = map url (sample_feed 12)"
proof -
  have 1: "originalNewsData (sample_state RU 12) = Snapshot (sample_feed 12)"
    by (simp add: sample_state_def)
  have 2: "\<forall>k < batch_count (sample_feed 12).
      honours_contract (batch_at (sample_feed 12) k) (skip_second k (batch_at (sample_feed 12) k))"
  proof (intro allI impI)
    fix k
    show "honours_contract (batch_at (sample_feed 12) k)
        (skip_second k (batch_at (sample_feed 12) k))"
      by (cases "k = 1") (simp_all add: skip_second_def translate_all_def ru_def comp_def)
  qed
  show ?thesis
    by (rule translate_keeps_length_and_order
        [of "sample_state RU 12" "sample_feed 12" skip_second, OF 1 2])
qed

section \<open>The projection \<open>renderNews\<close> shows\<close>

lemma last_renderNews:
  "last (newsGrid (renderNews s)) = (if filtered s = [] then NoNews else Cards (filtered s))"
  by (simp add: renderNews_def)

lemma shown_renderNews: "shown (last (newsGrid (renderNews s))) = filtered s"
  by (simp add: last_renderNews)

text \<open>
  Claim C8. For every displayed snapshot \<open>S\<close>, filter \<open>f\<close> and locale \<open>l\<close>, the items
  \<open>renderNews\<close> shows are: for the filter \<open>all\<close>, exactly \<open>S\<close> (so as many as \<open>S\<close>
  has); for another filter, exactly the items of \<open>S\<close> whose \<open>source\<close> is \<open>f\<close>, in
  their order in \<open>S\<close>.
\<close>

theorem renderNews_projection:
  "let P = shown (last (newsGrid
             (renderNews (s\<lparr>newsData := S, currentFilter := f, currentLang := l\<rparr>))))
   in (f = ''all'' \<longrightarrow> P = S \<and> length P = length S)
    \<and> (f \<noteq> ''all'' \<longrightarrow>
          P = filter (\<lambda>item. source item = f) S
        \<and> (\<forall>item \<in> set P. source item = f)
        \<and> (\<forall>item \<in> set S. source item = f \<longrightarrow> item \<in> set P)
        \<and> subseq P S)"
  by (simp add: shown_renderNews filtered_def)

theorem renderNews_projection_witness:
  "shown (last (newsGrid (renderNews ((sample_state EN 4)
       \<lparr>newsData := sample_feed 4, currentFilter := ''rss'', currentLang := RU\<rparr>))))
     = [sample_item 0, sample_item 2]
   \<and> shown (last (newsGrid (renderNews ((sample_state EN 4)
       \<lparr>newsData := sample_feed 4, currentFilter := ''all'', currentLang := RU\<rparr>))))
     = sample_feed 4"
proof -
  have "filter (\<lambda>item. source item = ''rss'') (sample_feed 4) = [sample_item 0, sample_item 2]"
    by code_simp
  then show ?thesis
    using renderNews_projection
        [where s = "sample_state EN 4" and S = "sample_feed 4" and f = "''rss''" and l = RU]
      renderNews_projection
        [where s = "sample_state EN 4" and S = "sample_feed 4" and f = "''all''" and l = RU]
    by (simp add: Let_def)
qed

section \<open>A failing batch\<close>

lemma received_lacks_items: "lacks_items r \<Longrightarrow> received batch r = Some batch"
  by (induction batch r rule: received.induct) simp_all

lemma sent_ran [simp]:
  "sent (ran xs m m' s) = sent s @ map (\<lambda>j. PostTranslate (batch_at xs j)) [0..<m']"
  by (simp add: ran_def)

lemma fields_ran [simp]:
  "originalNewsData (ran xs m m' s) = originalNewsData s"
  "currentLang (ran xs m m' s) = currentLang s"
  "currentFilter (ran xs m m' s) = currentFilter s"
  "newsData (ran xs m m' s) = newsData s"
  by (simp_all add: ran_def)

lemma batch_count_sample [simp]:
  "batch_count (sample_feed n) = (n + 9) div 10"
  by (simp add: batch_count_def sample_feed_def batchSize_def)

lemma answer_samples [simp]:
  "answer translate_all xs j = Some (map ru (batch_at xs j))"
  "answer reject_first xs j = (if j = 0 then None else Some (map ru (batch_at xs j)))"
  "answer reject_second xs j = (if j = 1 then None else Some (map ru (batch_at xs j)))"
  "answer skip_second xs j = (if j = 1 then Some (batch_at xs j) else Some (map ru (batch_at xs j)))"
  "answer drop_all xs j = Some []"
  "answer first_only xs j = Some (map ru (take 1 (batch_at xs j)))"
  by (simp_all add: answer_def translate_all_def reject_first_def reject_second_def
      skip_second_def drop_all_def first_only_def)

lemma original_sample [simp]: "originalNewsData (sample_state l n) = Snapshot (sample_feed n)"
  by (simp add: sample_state_def)

lemma sent_sample [simp]: "sent (sample_state l n) = []"
  by (simp add: sample_state_def)

text \<open>
  Claim C2, as the specification states it: when the request for one batch fails and
  the others succeed, the original items of that batch take their place in the result,
  the batches after it are still sent and translated, and the run reports success.
  The code does not do that for a request that throws. With 11 items and a translator
  that rejects the first request, a single request is sent, the second batch is never
  translated, and the whole display falls back to the original.
\<close>

theorem batch_failure_counterexample:
  "newsData (state_of (translateNews reject_first (sample_state RU 11))) = sample_feed 11
   \<and> drop 10 (newsData (state_of (translateNews reject_first (sample_state RU 11))))
       \<noteq> map ru (batch_at (sample_feed 11) 1)
   \<and> sent (state_of (translateNews reject_first (sample_state RU 11)))
       = [PostTranslate (batch_at (sample_feed 11) 0)]"
  by code_simp

text \<open>
  Claim C2, amended. Let the batches before batch \<open>k\<close> be answered. If the iteration
  for batch \<open>k\<close> throws (request rejected, body not JSON or \<open>null\<close>, \<open>items\<close> not
  iterable), no later batch is sent, the items translated so far are dropped and the
  display becomes a copy of the whole original. If instead the reply for batch \<open>k\<close>
  parses and has no \<open>items\<close>, and no batch throws, the original items of batch \<open>k\<close>
  stand in its place, every batch is sent and the other batches contribute what their
  replies carry. In both cases \<open>translateNews\<close> returns normally.
\<close>

theorem batch_failure:
  assumes "originalNewsData s = Snapshot xs" and "k < batch_count xs"
    and "\<forall>j < k. answer backend xs j \<noteq> None"
  shows "\<exists>s'. translateNews backend s = Returned s'
    \<and> (answer backend xs k = None \<longrightarrow>
          newsData s' = xs
        \<and> sent s' = sent s @ map (\<lambda>j. PostTranslate (batch_at xs j)) [0..<Suc k])
    \<and> (lacks_items (backend k (batch_at xs k))
          \<and> (\<forall>j < batch_count xs. answer backend xs j \<noteq> None) \<longrightarrow>
          newsData s' = concat (map (\<lambda>j. if j = k then batch_at xs k
                                          else the (answer backend xs j)) [0..<batch_count xs])
        \<and> sent s' = sent s @ map (\<lambda>j. PostTranslate (batch_at xs j)) [0..<batch_count xs])"
proof (cases "answer backend xs k")
  case None
  then show ?thesis
    using translateNews_first_throw [OF assms(1,2) None assms(3)] assms(2) by auto
next
  case (Some ys)
  show ?thesis
  proof (cases "\<forall>j < batch_count xs. answer backend xs j \<noteq> None")
    case True
    have "lacks_items (backend k (batch_at xs k)) \<Longrightarrow>
        (\<lambda>j. the (answer backend xs j)) =
        (\<lambda>j. if j = k then batch_at xs k else the (answer backend xs j))"
      by (auto simp: answer_def received_lacks_items)
    then show ?thesis
      using translateNews_all_answered [OF assms(1) True] Some by auto
  next
    case False
    then obtain j0 where "j0 < batch_count xs" "answer backend xs j0 = None"
        "\<forall>j < j0. answer backend xs j \<noteq> None"
      by (cases rule: first_throw_cases [of xs backend]) auto
    then show ?thesis
      using translateNews_first_throw [OF assms(1), of j0 backend] Some False by auto
  qed
qed

theorem batch_failure_witness:
  "(\<exists>s'. translateNews reject_first (sample_state RU 11) = Returned s'
      \<and> newsData s' = sample_feed 11
      \<and> sent s' = [PostTranslate (batch_at (sample_feed 11) 0)])
   \<and> (\<exists>s'. translateNews skip_second (sample_state RU 12) = Returned s'
      \<and> newsData s' = map ru (batch_at (sample_feed 12) 0) @ batch_at (sample_feed 12) 1
      \<and> sent s' = [PostTranslate (batch_at (sample_feed 12) 0),
                    PostTranslate (batch_at (sample_feed 12) 1)])"
proof
  show "\<exists>s'. translateNews reject_first (sample_state RU 11) = Returned s'
      \<and> newsData s' = sample_feed 11
      \<and> sent s' = [PostTranslate (batch_at (sample_feed 11) 0)]"
    using batch_failure [of "sample_state RU 11" "sample_feed 11" 0 reject_first]
    by auto
next
  have "lacks_items (skip_second 1 (batch_at (sample_feed 12) 1))"
    by (simp add: skip_second_def)
  moreover have "[0..<2] = [0, 1]"
    by (simp add: upt_rec)
  ultimately show "\<exists>s'. translateNews skip_second (sample_state RU 12) = Returned s'
      \<and> newsData s' = map ru (batch_at (sample_feed 12) 0) @ batch_at (sample_feed 12) 1
      \<and> sent s' = [PostTranslate (batch_at (sample_feed 12) 0),
                    PostTranslate (batch_at (sample_feed 12) 1)]"
    using batch_failure [of "sample_state RU 12" "sample_feed 12" 1 skip_second]
    by auto
qed

section \<open>A reply of another length\<close>

text \<open>
  Claim C3, as the specification states it: a reply whose \<open>items\<close> has another length
  than the batch is detected and treated as a failed batch, the batch's original items
  standing in. The code has no such check: for one item and a translator that answers
  with an empty array, the display ends up empty.
\<close>

theorem length_mismatch_counterexample:
  "newsData (state_of (translateNews drop_all (sample_state RU 1))) = []
   \<and> length (newsData (state_of (translateNews drop_all (sample_state RU 1))))
       \<noteq> length (sample_feed 1)
   \<and> newsData (state_of (translateNews drop_all (sample_state RU 1))) \<noteq> sample_feed 1"
  by code_simp

text \<open>
  Claim C3, amended. \<open>translateNews\<close> does not compare lengths: when every reply
  carries an array, the display is the concatenation of these arrays as they came, and
  its length is the sum of their lengths, whatever the lengths of the batches.
\<close>

theorem no_length_check:
  assumes "originalNewsData s = Snapshot xs"
    and "\<forall>k < batch_count xs.
           \<exists>status. backend k (batch_at xs k) = Parsed status (JsonValue (ItemsArray (ys k)))"
  shows "\<exists>s'. translateNews backend s = Returned s'
    \<and> newsData s' = concat (map ys [0..<batch_count xs])
    \<and> length (newsData s') = sum_list (map (\<lambda>k. length (ys k)) [0..<batch_count xs])"
proof -
  have ans: "\<forall>k < batch_count xs. answer backend xs k = Some (ys k)"
    using assms(2) by (auto simp: answer_def)
  then have all: "\<forall>j < batch_count xs. answer backend xs j \<noteq> None"
    by simp
  have "map (\<lambda>j. the (answer backend xs j)) [0..<batch_count xs] = map ys [0..<batch_count xs]"
    using ans by simp
  then have "concat (map (\<lambda>j. the (answer backend xs j)) [0..<batch_count xs])
      = concat (map ys [0..<batch_count xs])"
    by (rule arg_cong)
  then show ?thesis
    using translateNews_all_answered [OF assms(1) all]
    by (simp add: length_concat comp_def)
qed

theorem no_length_check_witness:
  "\<exists>s'. translateNews first_only (sample_state RU 12) = Returned s'
    \<and> newsData s' = [ru (sample_item 0), ru (sample_item 10)]
    \<and> length (newsData s') = 2"
proof -
  have 1: "\<forall>k < batch_count (sample_feed 12).
      \<exists>status. first_only k (batch_at (sample_feed 12) k)
        = Parsed status (JsonValue (ItemsArray (map ru (take 1 (batch_at (sample_feed 12) k)))))"
    by (simp add: first_only_def)
  have 2: "concat (map (\<lambda>k. map ru (take 1 (batch_at (sample_feed 12) k))) [0..<2])
      = [ru (sample_item 0), ru (sample_item 10)]"
    by code_simp
  show ?thesis
    using no_length_check [of "sample_state RU 12" "sample_feed 12" first_only
        "\<lambda>k. map ru (take 1 (batch_at (sample_feed 12) k))"] 1 2
    by auto
qed

section \<open>Progress\<close>

text \<open>
  The arithmetic matters: with 400 items, after the 23rd batch the exact quotient gives
  57.5, which rounds to 58, while the binary64 product is just below 57.5 and the page
  shows 57.
\<close>

lemma percent_binary64_example:
  "percent 230 400 = 57 \<and> \<lfloor>(230 :: rat) / 400 * 100 + 1 / 2\<rfloor> = 58"
  by code_simp

lemma percentages_append:
  "percentages (vs @ ws) = percentages vs @ percentages ws"
  by (induction vs rule: percentages.induct) simp_all

lemma percentages_map [simp]: "percentages (map TranslatingPct ps) = ps"
  by (induction ps) simp_all

lemma percentages_render [simp]:
  "percentages [if c then NoNews else Cards ys] = []"
  by simp

lemma newsGrid_renderNews:
  "newsGrid (renderNews s) = newsGrid s @ [if filtered s = [] then NoNews else Cards (filtered s)]"
  by (simp add: renderNews_def)

lemma emitted_ran:
  "emitted s (renderNews ((ran xs m m' s)\<lparr>newsData := ys\<rparr>))
     = map (\<lambda>j. progress_at (Snapshot xs) (j * batchSize)) [0..<m]"
proof -
  have "percentages (map (\<lambda>j. TranslatingPct (progress_at (Snapshot xs) (j * batchSize))) [0..<m])
      = map (\<lambda>j. progress_at (Snapshot xs) (j * batchSize)) [0..<m]"
    using percentages_map [of "map (\<lambda>j. progress_at (Snapshot xs) (j * batchSize)) [0..<m]"]
    by (simp add: comp_def)
  then show ?thesis
    by (simp add: emitted_def newsGrid_renderNews ran_def percentages_append)
qed

lemma processed_after_eq: "processed_after xs k = min (Suc k * batchSize) (length xs)"
  by (simp add: processed_after_def concat_batches_take min.commute del: upt_Suc)

lemma percent_processed:
  assumes "xs \<noteq> []"
  shows "percent (k * batchSize + batchSize) (length xs)
       = percent (processed_after xs k) (length xs)"
proof (cases "Suc k * batchSize \<le> length xs")
  case True
  then show ?thesis by (simp add: processed_after_eq add.commute)
next
  case False
  then have "percent (k * batchSize + batchSize) (length xs) = 100"
    using assms by (intro percent_full) simp_all
  moreover have "percent (processed_after xs k) (length xs) = 100"
    using assms False by (intro percent_full) (simp_all add: processed_after_eq)
  ultimately show ?thesis by simp
qed

lemma progress_at_processed:
  assumes "xs \<noteq> []"
  shows "progress_at (Snapshot xs) (k * batchSize)
       = Percent (percent (processed_after xs k) (length xs))"
  using assms percent_processed [OF assms, of k] by (simp add: progress_at_def)

lemma processed_after_mono: "j \<le> k \<Longrightarrow> processed_after xs j \<le> processed_after xs k"
  by (simp add: processed_after_eq min.coboundedI1)

lemma processed_after_pos: "xs \<noteq> [] \<Longrightarrow> 0 < processed_after xs k"
  by (simp add: processed_after_eq)

lemma sorted_percent:
  assumes "xs \<noteq> []"
  shows "sorted (map (\<lambda>k. percent (processed_after xs k) (length xs)) [0..<m])"
proof -
  have "percent (processed_after xs j) (length xs) \<le> percent (processed_after xs k) (length xs)"
    if "j \<le> k" for j k
    using assms that
    by (intro percent_mono processed_after_mono processed_after_pos) simp_all
  then show ?thesis
    by (simp add: sorted_iff_nth_mono del: upt_Suc)
qed

text \<open>
  Claim C4, as the specification states it: after each batch, success or failure, a
  progress value is emitted, and the last value emitted is 100. The code emits nothing
  for a batch whose request throws, and the run ends there: with 15 items and a
  translator that rejects the second request, the only value emitted is 67.
\<close>

theorem progress_values_counterexample:
  "emitted (sample_state RU 15) (state_of (translateNews reject_second (sample_state RU 15)))
     = [Percent 67]
   \<and> last (emitted (sample_state RU 15)
             (state_of (translateNews reject_second (sample_state RU 15)))) \<noteq> Percent 100"
  by code_simp

text \<open>
  Claim C4, amended. Let \<open>m\<close> batches be handled without an exception, the run ending
  either with the last batch or with batch \<open>m\<close> throwing. Then exactly \<open>m\<close> values are
  emitted; the value after batch \<open>k\<close> is \<open>min(100, round(processed / total * 100))\<close>
  with \<open>processed\<close> the number of items in the batches up to and including \<open>k\<close>, the
  quotient, the product and the rounding being those of JavaScript numbers; the values
  are non-decreasing; and if no batch throws and the snapshot is not empty the last
  value emitted is 100.
\<close>

theorem progress_values:
  assumes "originalNewsData s = Snapshot xs"
    and "m \<le> batch_count xs"
    and "\<forall>j < m. answer backend xs j \<noteq> None"
    and "m < batch_count xs \<longrightarrow> answer backend xs m = None"
  shows "\<exists>s'. translateNews backend s = Returned s'
    \<and> emitted s s' = map (\<lambda>k. Percent (percent (processed_after xs k) (length xs))) [0..<m]
    \<and> sorted (map (\<lambda>k. percent (processed_after xs k) (length xs)) [0..<m])
    \<and> (m = batch_count xs \<and> xs \<noteq> [] \<longrightarrow> last (emitted s s') = Percent 100)"
proof (cases "xs = []")
  case True
  then have "batch_count xs = 0" by (simp add: batch_count_def batchSize_def)
  with assms(2) have m: "m = 0" by simp
  then have "\<forall>j < batch_count xs. answer backend xs j \<noteq> None"
    using \<open>batch_count xs = 0\<close> by simp
  from translateNews_all_answered [OF assms(1) this] show ?thesis
    using m True \<open>batch_count xs = 0\<close> by (simp add: emitted_ran)
next
  case False
  let ?p = "\<lambda>k. percent (processed_after xs k) (length xs)"
  have prog: "map (\<lambda>j. progress_at (Snapshot xs) (j * batchSize)) [0..<n]
      = map (\<lambda>k. Percent (?p k)) [0..<n]" for n
    using False by (simp add: progress_at_processed)
  have sorted: "sorted (map ?p [0..<m])"
    using False by (rule sorted_percent)
  have last: "last (map (\<lambda>k. Percent (?p k)) [0..<m]) = Percent 100"
    if "m = batch_count xs"
  proof -
    from False have "0 < batch_count xs" by (simp add: less_batch_count)
    with that have "m \<noteq> 0" by simp
    then obtain k where k: "m = Suc k" using not0_implies_Suc by blast
    have "length xs \<le> Suc k * batchSize"
      using that k by (simp add: batch_count_def batchSize_def)
    then have "?p k = 100"
      using False by (intro percent_full) (simp_all add: processed_after_eq)
    then show ?thesis using k by simp
  qed
  have em: "emitted s (renderNews ((ran xs n m' s)\<lparr>newsData := ys\<rparr>))
      = map (\<lambda>k. Percent (?p k)) [0..<n]" for n m' ys
    by (simp only: emitted_ran prog)
  show ?thesis
  proof (cases "m = batch_count xs")
    case True
    with assms(3) have "\<forall>j < batch_count xs. answer backend xs j \<noteq> None" by simp
    from translateNews_all_answered [OF assms(1) this]
    have "translateNews backend s = Returned (renderNews ((ran xs m m s)
        \<lparr>newsData := concat (map (\<lambda>j. the (answer backend xs j)) [0..<batch_count xs])\<rparr>))"
      using True by simp
    then show ?thesis
      using sorted last [OF True] True by (simp add: em)
  next
    case ne: False
    with assms have "m < batch_count xs" "answer backend xs m = None" by simp_all
    from translateNews_first_throw [OF assms(1) this assms(3)] show ?thesis
      using ne sorted by (simp add: em)
  qed
qed

theorem progress_values_witness:
  "\<exists>s'. translateNews translate_all (sample_state RU 25) = Returned s'
    \<and> emitted (sample_state RU 25) s' = [Percent 40, Percent 80, Percent 100]
    \<and> sorted [40, 80, 100 :: nat]
    \<and> last (emitted (sample_state RU 25) s') = Percent 100"
proof -
  have "map (\<lambda>k. Percent (percent (processed_after (sample_feed 25) k) (length (sample_feed 25))))
      [0..<3] = [Percent 40, Percent 80, Percent 100]"
    by code_simp
  moreover have "sample_feed 25 \<noteq> []"
    by (simp add: sample_feed_def)
  ultimately show ?thesis
    using progress_values [of "sample_state RU 25" "sample_feed 25" 3 translate_all]
    by auto
qed

section \<open>Loading the feed\<close>

lemma translateNews_returns:
  assumes "originalNewsData s = Snapshot xs"
  shows "\<exists>s'. translateNews backend s = Returned s'
    \<and> originalNewsData s' = Snapshot xs
    \<and> currentLang s' = currentLang s
    \<and> currentFilter s' = currentFilter s
    \<and> last (newsGrid s') \<noteq> ErrorView"
proof (cases rule: first_throw_cases [of xs backend])
  case all_answered
  from translateNews_all_answered [OF assms this] show ?thesis
    using assms by (simp add: last_renderNews)
next
  case (throws j0)
  from translateNews_first_throw [OF assms throws] show ?thesis
    using assms by (simp add: last_renderNews)
qed

lemma load_failed_fields [simp]:
  "originalNewsData (load_failed s) = originalNewsData s"
  "newsData (load_failed s) = newsData s"
  "currentFilter (load_failed s) = currentFilter s"
  "currentLang (load_failed s) = currentLang s"
  "sent (load_failed s) = sent s"
  "last (newsGrid (load_failed s)) = ErrorView"
  by (simp_all add: load_failed_def)

text \<open>
  Claim C5, as the specification states it: when \<open>loadNews\<close> fails on a network error
  or a malformed payload, \<open>originalNewsData\<close> and \<open>newsData\<close> keep their values. A
  payload \<open>{"items": 5}\<close> is malformed and the load fails on it (the error message is
  shown), but only at the spread, after \<open>originalNewsData\<close> has been assigned.
\<close>

theorem load_error_counterexample:
  "last (newsGrid (loadNews False (Parsed 200 (JsonValue ItemsScalar)) translate_all
          (sample_state EN 2))) = ErrorView
   \<and> originalNewsData (loadNews False (Parsed 200 (JsonValue ItemsScalar)) translate_all
          (sample_state EN 2)) = Scalar
   \<and> originalNewsData (sample_state EN 2) \<noteq> Scalar"
  by code_simp

text \<open>
  Claim C5, amended. When the feed request is rejected, or its body does not parse as
  JSON, or parses to \<open>null\<close>, \<open>loadNews\<close> leaves \<open>originalNewsData\<close> and \<open>newsData\<close>
  as they were, shows the error message, and has sent the one feed request and nothing
  else: it does not retry.
\<close>

theorem load_error_keeps_state:
  assumes "feed = Rejected \<or> (\<exists>status. feed = NotJson status)
           \<or> (\<exists>status. feed = Parsed status JsonNull)"
  shows "originalNewsData (loadNews forceRefresh feed backend s) = originalNewsData s
    \<and> newsData (loadNews forceRefresh feed backend s) = newsData s
    \<and> last (newsGrid (loadNews forceRefresh feed backend s)) = ErrorView
    \<and> sent (loadNews forceRefresh feed backend s) = sent s @ [GetNews forceRefresh]"
  using assms by (auto simp: loadNews_def)

theorem load_error_keeps_state_witness:
  "originalNewsData (loadNews True Rejected translate_all (sample_state RU 2))
     = Snapshot (sample_feed 2)
   \<and> newsData (loadNews True Rejected translate_all (sample_state RU 2)) = sample_feed 2
   \<and> last (newsGrid (loadNews True Rejected translate_all (sample_state RU 2))) = ErrorView
   \<and> sent (loadNews True Rejected translate_all (sample_state RU 2)) = [GetNews True]"
  using load_error_keeps_state [of Rejected True translate_all "sample_state RU 2"]
  by (simp add: sample_state_def)

text \<open>
  Claim C10, as stated: every body that parses as JSON is a success, and replaces
  \<open>originalNewsData\<close> by the payload's items, or by the empty snapshot when there are
  none. The body \<open>null\<close> parses as JSON and has no items, yet reading \<open>.items\<close> on it
  throws: the error message is shown and the two items loaded before stay.
\<close>

theorem load_json_null_counterexample:
  "last (newsGrid (loadNews False (Parsed 200 JsonNull) translate_all (sample_state EN 2)))
     = ErrorView
   \<and> originalNewsData (loadNews False (Parsed 200 JsonNull) translate_all (sample_state EN 2))
     = Snapshot (sample_feed 2)
   \<and> Snapshot (sample_feed 2) \<noteq> Snapshot []"
  by code_simp

text \<open>
  Claim C10, amended. The HTTP status plays no part. A body that parses to a value
  other than \<open>null\<close> whose \<open>items\<close> is absent, falsy or an array of items replaces
  \<open>originalNewsData\<close> by these items (the empty snapshot when absent or falsy) and does
  not end in the error message; in the primary locale \<open>newsData\<close> becomes the same
  items, \<open>renderNews\<close> shows them through the current filter and no further request
  is sent, in the translated locale the translation then runs on them. A rejected
  request, a body that is not JSON and the body \<open>null\<close> end in the error message with
  \<open>originalNewsData\<close> and \<open>newsData\<close> untouched. A body whose \<open>items\<close> is a non-zero
  number or \<open>true\<close> ends in the error message as well, with \<open>newsData\<close> untouched but
  \<open>originalNewsData\<close> already replaced.
\<close>

theorem load_outcomes:
  "(loadNews fr (Parsed status p) b s = loadNews fr (Parsed status' p) b s)
   \<and> (items_or_empty items = Snapshot xs \<longrightarrow>
        originalNewsData (loadNews fr (Parsed status (JsonValue items)) b s) = Snapshot xs
      \<and> last (newsGrid (loadNews fr (Parsed status (JsonValue items)) b s)) \<noteq> ErrorView
      \<and> (currentLang s = EN \<longrightarrow>
            loadNews fr (Parsed status (JsonValue items)) b s =
            renderNews
              ((fetch (GetNews fr) (display_view Loading s))
                 \<lparr>originalNewsData := Snapshot xs, newsData := xs\<rparr>)
          \<and> newsData (loadNews fr (Parsed status (JsonValue items)) b s) = xs
          \<and> last (newsGrid (loadNews fr (Parsed status (JsonValue items)) b s)) =
              (if filtered (s\<lparr>newsData := xs\<rparr>) = [] then NoNews
               else Cards (filtered (s\<lparr>newsData := xs\<rparr>)))
          \<and> sent (loadNews fr (Parsed status (JsonValue items)) b s) = sent s @ [GetNews fr])
      \<and> (currentLang s = RU \<longrightarrow>
            loadNews fr (Parsed status (JsonValue items)) b s =
            state_of (translateNews b
              ((fetch (GetNews fr) (display_view Loading s))
                 \<lparr>originalNewsData := Snapshot xs, newsData := xs\<rparr>))))
   \<and> (feed = Rejected \<or> feed = NotJson status \<or> feed = Parsed status JsonNull \<longrightarrow>
        loadNews fr feed b s
          = display_view ErrorView (fetch (GetNews fr) (display_view Loading s))
      \<and> originalNewsData (loadNews fr feed b s) = originalNewsData s
      \<and> newsData (loadNews fr feed b s) = newsData s
      \<and> last (newsGrid (loadNews fr feed b s)) = ErrorView)
   \<and> (loadNews fr (Parsed status (JsonValue ItemsScalar)) b s
          = display_view ErrorView
              ((fetch (GetNews fr) (display_view Loading s))\<lparr>originalNewsData := Scalar\<rparr>)
      \<and> originalNewsData (loadNews fr (Parsed status (JsonValue ItemsScalar)) b s) = Scalar
      \<and> newsData (loadNews fr (Parsed status (JsonValue ItemsScalar)) b s) = newsData s
      \<and> last (newsGrid (loadNews fr (Parsed status (JsonValue ItemsScalar)) b s)) = ErrorView)"
proof (intro conjI impI)
  show "loadNews fr (Parsed status p) b s = loadNews fr (Parsed status' p) b s"
    by (simp add: loadNews_def)
next
  assume xs: "items_or_empty items = Snapshot xs"
  let ?s3 = "(fetch (GetNews fr) (display_view Loading s))
      \<lparr>originalNewsData := Snapshot xs, newsData := xs\<rparr>"
  let ?L = "loadNews fr (Parsed status (JsonValue items)) b s"
  have L: "?L = (if currentLang s = RU then state_of (translateNews b ?s3) else renderNews ?s3)"
  proof -
    obtain s' where "translateNews b ?s3 = Returned s'"
      using translateNews_returns [of ?s3 xs b] by auto
    then show ?thesis using xs by (simp add: loadNews_def Let_def)
  qed
  obtain s' where s': "translateNews b ?s3 = Returned s'"
      "originalNewsData s' = Snapshot xs" "last (newsGrid s') \<noteq> ErrorView"
    using translateNews_returns [of ?s3 xs b] by auto
  have f: "filtered ?s3 = filtered (s\<lparr>newsData := xs\<rparr>)"
    by (simp add: filtered_def)
  show "originalNewsData ?L = Snapshot xs"
    using s' by (simp add: L)
  show "last (newsGrid ?L) \<noteq> ErrorView"
    using s' by (simp add: L last_renderNews)
  show "?L = renderNews ?s3" if "currentLang s = EN"
    using that by (simp add: L)
  show "newsData ?L = xs" if "currentLang s = EN"
    using that by (simp add: L)
  show "last (newsGrid ?L) =
      (if filtered (s\<lparr>newsData := xs\<rparr>) = [] then NoNews
       else Cards (filtered (s\<lparr>newsData := xs\<rparr>)))" if "currentLang s = EN"
    using that f by (simp add: L last_renderNews)
  show "sent ?L = sent s @ [GetNews fr]" if "currentLang s = EN"
    using that by (simp add: L)
  show "?L = state_of (translateNews b ?s3)" if "currentLang s = RU"
    using that by (simp add: L)
next
  assume "feed = Rejected \<or> feed = NotJson status \<or> feed = Parsed status JsonNull"
  then show "loadNews fr feed b s
      = display_view ErrorView (fetch (GetNews fr) (display_view Loading s))"
    "originalNewsData (loadNews fr feed b s) = originalNewsData s"
    "newsData (loadNews fr feed b s) = newsData s"
    "last (newsGrid (loadNews fr feed b s)) = ErrorView"
    by (auto simp: loadNews_def load_failed_def)
next
  show "loadNews fr (Parsed status (JsonValue ItemsScalar)) b s
      = display_view ErrorView
          ((fetch (GetNews fr) (display_view Loading s))\<lparr>originalNewsData := Scalar\<rparr>)"
    "originalNewsData (loadNews fr (Parsed status (JsonValue ItemsScalar)) b s) = Scalar"
    "newsData (loadNews fr (Parsed status (JsonValue ItemsScalar)) b s) = newsData s"
    "last (newsGrid (loadNews fr (Parsed status (JsonValue ItemsScalar)) b s)) = ErrorView"
    by (simp_all add: loadNews_def load_failed_def)
qed

theorem load_outcomes_witness:
  "originalNewsData (loadNews False (Parsed 503 (JsonValue (ItemsArray (sample_feed 3))))
      translate_all (sample_state EN 2)) = Snapshot (sample_feed 3)
   \<and> newsData (loadNews False (Parsed 503 (JsonValue (ItemsArray (sample_feed 3))))
      translate_all (sample_state EN 2)) = sample_feed 3
   \<and> last (newsGrid (loadNews False (Parsed 503 (JsonValue (ItemsArray (sample_feed 3))))
      translate_all (sample_state EN 2))) = Cards (sample_feed 3)
   \<and> sent (loadNews False (Parsed 503 (JsonValue (ItemsArray (sample_feed 3))))
      translate_all (sample_state EN 2)) = [GetNews False]
   \<and> last (newsGrid (loadNews False Rejected translate_all (sample_state EN 2))) = ErrorView"
proof -
  have 1: "sample_feed 3 \<noteq> []"
    by (simp add: sample_feed_def)
  have 2: "currentLang (sample_state EN 2) = EN"
    by (simp add: sample_state_def)
  have 3: "filtered ((sample_state EN 2)\<lparr>newsData := sample_feed 3\<rparr>) = sample_feed 3"
    by (simp add: sample_state_def filtered_def)
  show ?thesis
    using load_outcomes [where items = "ItemsArray (sample_feed 3)" and xs = "sample_feed 3"
        and s = "sample_state EN 2" and fr = False and status = 503 and b = translate_all
        and feed = Rejected and p = JsonNull and status' = 200] 1 2 3
    by auto
qed

section \<open>Switching the locale and back\<close>

text \<open>
  Claim C6, as the specification states it: for every state, switching to the
  translated locale and back makes the display equal to the original, element by
  element. The state after a load of \<open>{"items": 5}\<close> is one the page can be in:
  \<open>originalNewsData\<close> is the number. There the first click switches the locale and
  translates nothing, and the second click throws at the spread: the display keeps
  the two items it had.
\<close>

theorem locale_round_trip_counterexample:
  "originalNewsData scalar_state = Scalar
   \<and> currentLang scalar_state = EN
   \<and> langClick translate_all scalar_state = Returned (scalar_state\<lparr>currentLang := RU\<rparr>)
   \<and> langClick translate_all (scalar_state\<lparr>currentLang := RU\<rparr>)
       = Uncaught (scalar_state\<lparr>currentLang := EN\<rparr>)
   \<and> newsData (scalar_state\<lparr>currentLang := EN\<rparr>) = sample_feed 2
   \<and> originalNewsData (scalar_state\<lparr>currentLang := EN\<rparr>) = Scalar"
  by code_simp

text \<open>
  Claim C6, amended. For every state in the primary locale whose \<open>originalNewsData\<close>
  is an array of items: a click on the language button switches to the translated
  locale (and translates, with whatever replies), and a second click switches back:
  its handler completes without an await, makes \<open>newsData\<close> equal to the snapshot
  element by element, and sends no request.
\<close>

theorem locale_round_trip:
  assumes "currentLang s = EN" and "originalNewsData s = Snapshot xs"
  shows "\<exists>s1 s2. langClick backend s = Returned s1 \<and> currentLang s1 = RU
     \<and> originalNewsData s1 = Snapshot xs
     \<and> langClick_start s1 = Completed (Returned s2)
     \<and> langClick backend' s1 = Returned s2 \<and> currentLang s2 = EN
     \<and> originalNewsData s2 = Snapshot xs \<and> newsData s2 = xs
     \<and> sent s2 = sent s1"
proof -
  let ?s = "s\<lparr>currentLang := RU\<rparr>"
  have "\<exists>s1. langClick backend s = Returned s1 \<and> currentLang s1 = RU
      \<and> originalNewsData s1 = Snapshot xs"
  proof (cases "xs = []")
    case True
    then show ?thesis
      using assms by (simp add: langClick_def langClick_start_def less_length_def)
  next
    case False
    then have "langClick backend s = translateNews backend ?s"
      using assms
      by (simp add: langClick_def langClick_start_def less_length_def translateNews_def)
    then show ?thesis
      using translateNews_returns [of ?s xs backend] assms by auto
  qed
  then obtain s1 where s1: "langClick backend s = Returned s1" "currentLang s1 = RU"
      "originalNewsData s1 = Snapshot xs"
    by blast
  let ?s2 = "renderNews (s1\<lparr>currentLang := EN, newsData := xs\<rparr>)"
  have "langClick_start s1 = Completed (Returned ?s2)"
    using s1 by (simp add: langClick_start_def)
  then show ?thesis
    using s1 by (simp add: langClick_def)
qed

theorem locale_round_trip_witness:
  "\<exists>s1 s2. langClick translate_all (sample_state EN 12) = Returned s1 \<and> currentLang s1 = RU
     \<and> originalNewsData s1 = Snapshot (sample_feed 12)
     \<and> langClick_start s1 = Completed (Returned s2)
     \<and> langClick reject_first s1 = Returned s2 \<and> currentLang s2 = EN
     \<and> originalNewsData s2 = Snapshot (sample_feed 12) \<and> newsData s2 = sample_feed 12
     \<and> sent s2 = sent s1"
proof -
  have "currentLang (sample_state EN 12) = EN"
    by (simp add: sample_state_def)
  then show ?thesis
    using locale_round_trip
      [of "sample_state EN 12" "sample_feed 12" translate_all reject_first]
    by simp
qed

section \<open>Who writes \<open>originalNewsData\<close>\<close>

lemma fallback_original [simp]:
  "originalNewsData (state_of (fallback s)) = originalNewsData s"
  by (cases "originalNewsData s") (simp_all add: fallback_def)

lemma next_batch_original [simp]:
  "originalNewsData (after (next_batch i acc s)) = originalNewsData s"
  by (cases "originalNewsData s") (simp_all add: next_batch_def)

lemma resume_original [simp]:
  "originalNewsData (after (translateNews_resume t r s)) = originalNewsData s"
  by (cases "received (t_batch t) r") (simp_all add: translateNews_resume_def)

lemma start_original [simp]:
  "originalNewsData (after (translateNews_start s)) = originalNewsData s"
  by (simp add: translateNews_start_def)

lemma run_from_original:
  "originalNewsData (state_of (run_from backend st)) = originalNewsData (after st)"
  by (induction backend st rule: run_from.induct) simp_all

lemma langClick_start_original [simp]:
  "originalNewsData (after (langClick_start s)) = originalNewsData s"
  by (cases "originalNewsData s") (simp_all add: langClick_start_def Let_def)

subsection \<open>What an event keeps of the store\<close>

lemma kept_refl [simp]: "kept w p p"
  by (simp add: kept_def)


lemma renderNews_h_original [simp]:
  "originalNewsData_at (renderNews_h p) = originalNewsData_at p"
  by (auto simp: renderNews_h_def filtered_h_def alloc_array_def display_view_h_def)


lemma fallback_h_original [simp]:
  "originalNewsData_at (page_of (fallback_h p)) = originalNewsData_at p"
  by (auto simp: fallback_h_def spread_h_def alloc_array_def split: jsref.splits)

lemma fallback_h_task [simp]: "task_kept w p (fallback_h p)"
  by (auto simp: task_kept_def fallback_h_def spread_h_def alloc_array_def split: jsref.splits)


lemma next_batch_h_original [simp]:
  "originalNewsData_at (page_of (next_batch_h i acc by_load p)) = originalNewsData_at p"
  by (auto simp: next_batch_h_def alloc_array_def fetch_h_def split: jsref.splits)




lemma received_h_original:
  "received_h t r p = Some p1 \<Longrightarrow> originalNewsData_at p1 = originalNewsData_at p"
  by (induction t r p rule: received_h.induct)
    (auto simp: push_def parse_items_def alloc_array_def)





lemma translateNews_resume_h_original [simp]:
  "originalNewsData_at (page_of (translateNews_resume_h t r p)) = originalNewsData_at p"
  by (cases "received_h t r p")
    (simp_all add: translateNews_resume_h_def received_h_original display_view_h_def)



lemma translateNews_start_h_original [simp]:
  "originalNewsData_at (page_of (translateNews_start_h by_load p)) = originalNewsData_at p"
  by (simp add: translateNews_start_h_def alloc_array_def display_view_h_def)




lemma langClick_start_h_original [simp]:
  "originalNewsData_at (page_of (langClick_start_h p)) = originalNewsData_at p"
  by (auto simp: langClick_start_h_def Let_def spread_h_def alloc_array_def
      split: jsref.splits)



lemma filterClick_h_original [simp]:
  "originalNewsData_at (filterClick_h f p) = originalNewsData_at p"
  by (simp add: filterClick_h_def)







lemma settle_fields [simp]:
  "originalNewsData_at (settle by_load st) = originalNewsData_at (page_of st)"
  "fresh (settle by_load st) = fresh (page_of st)"
  "arrays (settle by_load st) = arrays (page_of st)"
  "objects (settle by_load st) = objects (page_of st)"
  "newsData_at (settle by_load st) = newsData_at (page_of st)"
  by (cases st; simp add: display_view_h_def)+




lemma parsed_elements:
  "map (\<lambda>r. if base \<le> r \<and> r < base + length ys then ys ! (r - base) else f r)
     [base..<base + length ys] = ys"
  by (rule nth_equalityI) simp_all








subsection \<open>The store and the state of values\<close>

text \<open>
  Each function over the store does to the values a page stands for what the
  function over values does to them.
\<close>

lemma value_of_fields [simp]:
  "originalNewsData (value_of p) = original_value p"
  "newsData (value_of p) = elements p (newsData_at p)"
  "currentFilter (value_of p) = filter_of p"
  "currentLang (value_of p) = lang_of p"
  "newsGrid (value_of p) = grid_log p"
  "sent (value_of p) = request_log p"
  by (simp_all add: value_of_def)

lemma map_filter_objects:
  "map f (filter (\<lambda>r. g (f r) = c) rs) = filter (\<lambda>x. g x = c) (map f rs)"
  by (induction rs) simp_all

lemma alloc_array_value:
  assumes "wf_page p" and "\<forall>r \<in> set refs. r < fresh p"
  shows "value_of (snd (alloc_array refs p)) = value_of p"
    and "wf_page (snd (alloc_array refs p))"
    and "elements (snd (alloc_array refs p)) (fst (alloc_array refs p)) = map (objects p) refs"
    and "a < fresh p \<Longrightarrow> elements (snd (alloc_array refs p)) a = elements p a"
    and "fst (alloc_array refs p) = fresh p"
    and "fresh (snd (alloc_array refs p)) = Suc (fresh p)"
  using assms
  by (auto simp: wf_page_def value_of_def alloc_array_def elements_def original_value_def
      less_Suc_eq split: jsref.splits)

lemma filtered_h_value:
  assumes "wf_page p"
  shows "value_of (snd (filtered_h p)) = value_of p"
    and "wf_page (snd (filtered_h p))"
    and "elements (snd (filtered_h p)) (fst (filtered_h p)) = filtered (value_of p)"
proof -
  let ?refs = "filter (\<lambda>r. source (objects p r) = filter_of p) (arrays p (newsData_at p))"
  have refs: "\<forall>r \<in> set ?refs. r < fresh p"
    using assms by (auto simp: wf_page_def)
  show "value_of (snd (filtered_h p)) = value_of p"
    using alloc_array_value(1) [OF assms refs] by (simp add: filtered_h_def)
  show "wf_page (snd (filtered_h p))"
    using alloc_array_value(2) [OF assms refs] assms by (simp add: filtered_h_def)
  show "elements (snd (filtered_h p)) (fst (filtered_h p)) = filtered (value_of p)"
    using alloc_array_value(3) [OF assms refs]
    by (simp add: filtered_h_def filtered_def map_filter_objects) (simp add: elements_def)
qed

lemma display_view_h_elements [simp]:
  "elements (display_view_h v p) a = elements p a"
  "elements (fetch_h r p) a = elements p a"
  by (simp_all add: display_view_h_def fetch_h_def elements_def)

lemma display_view_h_original_value [simp]:
  "original_value (display_view_h v p) = original_value p"
  "original_value (fetch_h r p) = original_value p"
  by (simp_all add: display_view_h_def fetch_h_def elements_def original_value_def
      split: jsref.splits)

lemma display_view_h_value [simp]:
  "value_of (display_view_h v p) = display_view v (value_of p)"
  "wf_page (display_view_h v p) = wf_page p"
  by (simp_all add: value_of_def display_view_def wf_page_def)
    (simp_all add: display_view_h_def)

lemma fetch_h_value [simp]:
  "value_of (fetch_h r p) = fetch r (value_of p)"
  "wf_page (fetch_h r p) = wf_page p"
  by (simp_all add: value_of_def fetch_def wf_page_def)
    (simp_all add: fetch_h_def)

lemma renderNews_h_eq:
  "renderNews_h p =
     (if length (elements (snd (filtered_h p)) (fst (filtered_h p))) = 0
      then display_view_h NoNews (snd (filtered_h p))
      else display_view_h (Cards (elements (snd (filtered_h p)) (fst (filtered_h p))))
             (snd (filtered_h p)))"
  by (simp add: renderNews_h_def elements_def split: prod.splits)

lemma renderNews_h_value:
  assumes "wf_page p"
  shows "value_of (renderNews_h p) = renderNews (value_of p)"
    and "wf_page (renderNews_h p)"
  using filtered_h_value [OF assms]
  by (simp_all add: renderNews_h_eq renderNews_def)

lemma elements_updates [simp]:
  "elements (p\<lparr>filter_of := f\<rparr>) a = elements p a"
  "elements (p\<lparr>lang_of := l\<rparr>) a = elements p a"
  "elements (p\<lparr>newsData_at := c\<rparr>) a = elements p a"
  "elements (p\<lparr>originalNewsData_at := x\<rparr>) a = elements p a"
  by (simp_all add: elements_def)

lemma original_value_updates [simp]:
  "original_value (p\<lparr>filter_of := f\<rparr>) = original_value p"
  "original_value (p\<lparr>lang_of := l\<rparr>) = original_value p"
  "original_value (p\<lparr>newsData_at := c\<rparr>) = original_value p"
  by (simp_all add: original_value_def split: jsref.splits)

lemma value_of_updates [simp]:
  "value_of (p\<lparr>filter_of := f\<rparr>) = (value_of p)\<lparr>currentFilter := f\<rparr>"
  "value_of (p\<lparr>lang_of := l\<rparr>) = (value_of p)\<lparr>currentLang := l\<rparr>"
  "value_of (p\<lparr>newsData_at := c\<rparr>) = (value_of p)\<lparr>newsData := elements p c\<rparr>"
  by (simp_all add: value_of_def)

lemma value_of_original_update:
  "value_of (p\<lparr>originalNewsData_at := x\<rparr>)
     = (value_of p)\<lparr>originalNewsData :=
          (case x of ArrayAt a \<Rightarrow> Snapshot (elements p a) | ScalarValue \<Rightarrow> Scalar)\<rparr>"
  by (simp add: value_of_def original_value_def split: jsref.splits)

lemma wf_page_updates [simp]:
  "wf_page (p\<lparr>filter_of := f\<rparr>) = wf_page p"
  "wf_page (p\<lparr>lang_of := l\<rparr>) = wf_page p"
  by (simp_all add: wf_page_def)

lemma filterClick_h_value:
  assumes "wf_page p"
  shows "value_of (filterClick_h f p) = filterClick f (value_of p)"
  using assms by (simp add: filterClick_h_def filterClick_def renderNews_h_value)

lemma wf_page_newsData:
  "wf_page p \<Longrightarrow> c < fresh p \<Longrightarrow> wf_page (p\<lparr>newsData_at := c\<rparr>)"
  by (simp add: wf_page_def)

lemma wf_page_refs:
  "wf_page p \<Longrightarrow> \<forall>r \<in> set (arrays p a). r < fresh p"
  by (simp add: wf_page_def)

lemma copy_value:
  assumes "wf_page p"
  shows "value_of (renderNews_h ((snd (alloc_array (arrays p a) p))
            \<lparr>newsData_at := fst (alloc_array (arrays p a) p)\<rparr>))
          = renderNews ((value_of p)\<lparr>newsData := elements p a\<rparr>)"
    and "wf_page (renderNews_h ((snd (alloc_array (arrays p a) p))
            \<lparr>newsData_at := fst (alloc_array (arrays p a) p)\<rparr>))"
proof -
  let ?p1 = "snd (alloc_array (arrays p a) p)"
  let ?c = "fst (alloc_array (arrays p a) p)"
  note al = alloc_array_value [OF assms wf_page_refs [OF assms], of a]
  have wf: "wf_page (?p1\<lparr>newsData_at := ?c\<rparr>)"
    using al(2) by (rule wf_page_newsData) (simp add: al)
  show "value_of (renderNews_h (?p1\<lparr>newsData_at := ?c\<rparr>))
          = renderNews ((value_of p)\<lparr>newsData := elements p a\<rparr>)"
    using al(1,3) by (simp add: renderNews_h_value(1) [OF wf] elements_def)
  show "wf_page (renderNews_h (?p1\<lparr>newsData_at := ?c\<rparr>))"
    using wf by (rule renderNews_h_value)
qed

lemma fallback_h_value:
  assumes "wf_page p"
  shows "value_step (fallback_h p) = Completed (fallback (value_of p))"
proof (cases "originalNewsData_at p")
  case ScalarValue
  then show ?thesis
    by (simp add: fallback_h_def fallback_def spread_h_def original_value_def)
next
  case (ArrayAt a)
  then show ?thesis
    using copy_value(1) [OF assms, of a]
    by (simp add: fallback_h_def fallback_def spread_h_def original_value_def
        case_prod_beta)
qed

lemma next_batch_h_value:
  assumes "wf_page p" and "acc < fresh p"
  shows "value_step (next_batch_h i acc by_load p) = next_batch i (elements p acc) (value_of p)"
proof (cases "originalNewsData_at p")
  case ScalarValue
  then show ?thesis
    using fallback_h_value [OF assms(1)] wf_page_newsData [OF assms]
    by (simp add: next_batch_h_def next_batch_def original_value_def renderNews_h_value
        less_length_def)
next
  case (ArrayAt a)
  let ?refs = "take batchSize (drop i (arrays p a))"
  have refs: "\<forall>r \<in> set ?refs. r < fresh p"
    using wf_page_refs [OF assms(1), of a] by (auto dest: in_set_takeD in_set_dropD)
  note al = alloc_array_value [OF assms(1) refs]
  have sl: "map (objects p) ?refs = slice (elements p a) i (i + batchSize)"
    by (simp add: slice_def elements_def take_map drop_map)
  show ?thesis
    using ArrayAt al(1,3,5) al(4) [OF assms(2)] sl wf_page_newsData [OF assms]
    by (simp add: next_batch_h_def next_batch_def original_value_def renderNews_h_value
        task_value_def case_prod_beta)
qed

lemma translateNews_start_h_value:
  assumes "wf_page p"
  shows "value_step (translateNews_start_h by_load p) = translateNews_start (value_of p)"
proof -
  let ?q = "display_view_h Translating p"
  have wf: "wf_page ?q"
    using assms by simp
  note al = alloc_array_value [OF wf, of "[]"]
  have "value_step (next_batch_h 0 (fresh ?q) by_load (snd (alloc_array [] ?q)))
      = next_batch 0 (elements (snd (alloc_array [] ?q)) (fresh ?q))
          (value_of (snd (alloc_array [] ?q)))"
    using al by (intro next_batch_h_value) simp_all
  then show ?thesis
    using al by (simp add: translateNews_start_h_def translateNews_start_def
        case_prod_beta)
qed

lemma push_value:
  assumes "wf_page p" and "a < fresh p" and "a \<noteq> newsData_at p"
    and "originalNewsData_at p \<noteq> ArrayAt a" and "\<forall>r \<in> set refs. r < fresh p"
  shows "value_of (push a refs p) = value_of p"
    and "wf_page (push a refs p)"
    and "elements (push a refs p) a = elements p a @ map (objects p) refs"
    and "fresh (push a refs p) = fresh p"
  using assms
  by (auto simp: wf_page_def value_of_def push_def elements_def original_value_def
      split: jsref.splits)

lemma parse_items_value:
  assumes "wf_page p"
  shows "value_of (snd (parse_items ys p)) = value_of p"
    and "wf_page (snd (parse_items ys p))"
    and "elements (snd (parse_items ys p)) (fst (parse_items ys p)) = ys"
    and "a < fresh p \<Longrightarrow> elements (snd (parse_items ys p)) a = elements p a"
    and "fresh p \<le> fresh (snd (parse_items ys p))"
    and "newsData_at (snd (parse_items ys p)) = newsData_at p"
    and "originalNewsData_at (snd (parse_items ys p)) = originalNewsData_at p"
proof -
  let ?p1 = "snd (parse_items ys p)"
  have ar: "arrays ?p1 a = arrays p a" if "a < fresh p" for a
    using that by (simp add: parse_items_def alloc_array_def)
  have ob: "objects ?p1 r = objects p r" if "r < fresh p" for r
    using that by (simp add: parse_items_def alloc_array_def)
  have el: "elements ?p1 a = elements p a" if "a < fresh p" for a
    using ar [OF that] ob wf_page_refs [OF assms, of a] by (simp add: elements_def)
  show "a < fresh p \<Longrightarrow> elements ?p1 a = elements p a"
    by (rule el)
  show nd: "newsData_at ?p1 = newsData_at p"
    and "originalNewsData_at ?p1 = originalNewsData_at p"
    and "fresh p \<le> fresh ?p1"
    by (simp_all add: parse_items_def alloc_array_def)
  show "elements ?p1 (fst (parse_items ys p)) = ys"
    by (simp add: parse_items_def alloc_array_def elements_def parsed_elements)
  have "original_value ?p1 = original_value p"
    using assms el by (auto simp: original_value_def wf_page_def parse_items_def
        alloc_array_def split: jsref.splits)
  moreover have "elements ?p1 (newsData_at p) = elements p (newsData_at p)"
    using assms by (intro el) (simp add: wf_page_def)
  ultimately show "value_of ?p1 = value_of p"
    using nd by (simp add: value_of_def) (simp add: parse_items_def alloc_array_def)
  show "wf_page ?p1"
    unfolding wf_page_def
  proof (intro conjI allI ballI impI)
    show "newsData_at ?p1 < fresh ?p1"
      using assms by (simp add: wf_page_def parse_items_def alloc_array_def)
    show "a < fresh ?p1" if "originalNewsData_at ?p1 = ArrayAt a" for a
      using assms that by (simp add: wf_page_def parse_items_def alloc_array_def)
    show "r < fresh ?p1" if "r \<in> set (arrays ?p1 a)" for a r
    proof (cases "a = fresh p + length ys")
      case True
      then show ?thesis
        using that by (simp add: parse_items_def alloc_array_def)
    next
      case False
      then have "r \<in> set (arrays p a)"
        using that by (simp add: parse_items_def alloc_array_def)
      then have "r < fresh p"
        using wf_page_refs [OF assms] by blast
      then show ?thesis
        by (simp add: parse_items_def alloc_array_def)
    qed
  qed
qed

lemma received_h_value:
  assumes "wf_page p" and "wf_task t p"
  shows "received (elements p (h_batch t)) r = None \<Longrightarrow> received_h t r p = None"
    and "received (elements p (h_batch t)) r = Some ys \<Longrightarrow>
      \<exists>p1. received_h t r p = Some p1 \<and> value_of p1 = value_of p \<and> wf_page p1
        \<and> elements p1 (h_translatedItems t) = elements p (h_translatedItems t) @ ys
        \<and> h_translatedItems t < fresh p1"
proof -
  let ?acc = "h_translatedItems t"
  have t: "h_batch t < fresh p" "?acc < fresh p" "?acc \<noteq> h_batch t"
      "?acc \<noteq> newsData_at p" "originalNewsData_at p \<noteq> ArrayAt ?acc"
    using assms(2) by (simp_all add: wf_task_def)
  show "received (elements p (h_batch t)) r = None \<Longrightarrow> received_h t r p = None"
    by (induction t r p rule: received_h.induct) simp_all
  assume r: "received (elements p (h_batch t)) r = Some ys"
  show "\<exists>p1. received_h t r p = Some p1 \<and> value_of p1 = value_of p \<and> wf_page p1
        \<and> elements p1 ?acc = elements p ?acc @ ys \<and> ?acc < fresh p1"
  proof (cases "\<exists>status. r = Parsed status (JsonValue ItemsFalsy)")
    case True
    then obtain status where r': "r = Parsed status (JsonValue ItemsFalsy)"
      by blast
    have ys: "ys = elements p (h_batch t)"
      using r r' by simp
    note pu = push_value [OF assms(1) t(2,4,5) wf_page_refs [OF assms(1), of "h_batch t"]]
    show ?thesis
      using pu t(2) by (simp add: r' ys) (simp add: elements_def)
  next
    case False
    then obtain status zs where r': "r = Parsed status (JsonValue (ItemsArray zs))"
      using r by (induction t r p rule: received_h.induct) simp_all
    have ys: "ys = zs"
      using r r' by simp
    let ?p1 = "snd (parse_items zs p)"
    let ?d = "fst (parse_items zs p)"
    note pa = parse_items_value [OF assms(1), where ys = zs]
    have acc: "?acc < fresh ?p1"
      using t(2) pa(5) by simp
    note pu = push_value [OF pa(2) acc _ _ wf_page_refs [OF pa(2), of ?d]]
    have 1: "?acc \<noteq> newsData_at ?p1" "originalNewsData_at ?p1 \<noteq> ArrayAt ?acc"
      using t pa(6,7) by simp_all
    have "elements (push ?acc (arrays ?p1 ?d) ?p1) ?acc = elements p ?acc @ zs"
      using pu(3) [OF 1] pa(3) pa(4) [OF t(2)] by (simp add: elements_def)
    then show ?thesis
      using pu(1,2,4) [OF 1] pa(1) acc by (simp add: r' ys case_prod_beta)
  qed
qed

lemma translateNews_resume_h_value:
  assumes "wf_page p" and "wf_task t p"
  shows "value_step (translateNews_resume_h t r p)
          = translateNews_resume (task_value t p) r (value_of p)"
proof (cases "received (elements p (h_batch t)) r")
  case None
  then show ?thesis
    using received_h_value(1) [OF assms None] fallback_h_value [OF assms(1)]
    by (simp add: translateNews_resume_h_def translateNews_resume_def task_value_def)
next
  case (Some ys)
  then obtain p1 where p1: "received_h t r p = Some p1" "value_of p1 = value_of p"
      "wf_page p1"
      "elements p1 (h_translatedItems t) = elements p (h_translatedItems t) @ ys"
      "h_translatedItems t < fresh p1"
    using received_h_value(2) [OF assms Some] by blast
  let ?q = "display_view_h (TranslatingPct (progress_at (original_value p1) (h_i t))) p1"
  have o: "original_value p1 = original_value p"
    using arg_cong [OF p1(2), of originalNewsData] by simp
  have "value_step (next_batch_h (h_i t + batchSize) (h_translatedItems t)
            (awaited_by_load t) ?q)
      = next_batch (h_i t + batchSize) (elements ?q (h_translatedItems t)) (value_of ?q)"
    using p1(3,5) by (intro next_batch_h_value) (simp, simp add: display_view_h_def)
  then show ?thesis
    using Some p1(1,2,4) o
    by (simp add: translateNews_resume_h_def translateNews_resume_def task_value_def)
qed

lemma copy_page:
  assumes "wf_page p"
  shows "value_of ((snd (alloc_array (arrays p a) p))
            \<lparr>newsData_at := fst (alloc_array (arrays p a) p)\<rparr>)
          = (value_of p)\<lparr>newsData := elements p a\<rparr>"
    and "wf_page ((snd (alloc_array (arrays p a) p))
            \<lparr>newsData_at := fst (alloc_array (arrays p a) p)\<rparr>)"
proof -
  let ?p1 = "snd (alloc_array (arrays p a) p)"
  let ?c = "fst (alloc_array (arrays p a) p)"
  note al = alloc_array_value [OF assms wf_page_refs [OF assms], of a]
  show "wf_page (?p1\<lparr>newsData_at := ?c\<rparr>)"
    using al(2) by (rule wf_page_newsData) (simp add: al)
  show "value_of (?p1\<lparr>newsData_at := ?c\<rparr>) = (value_of p)\<lparr>newsData := elements p a\<rparr>"
    using al(1,3) by (simp add: elements_def)
qed

lemma langClick_start_h_value:
  assumes "wf_page p"
  shows "value_step (langClick_start_h p) = langClick_start (value_of p)"
proof -
  let ?l = "if lang_of p = EN then RU else EN"
  let ?p1 = "p\<lparr>lang_of := ?l\<rparr>"
  have wf: "wf_page ?p1"
    using assms by simp
  have tr: "value_step (translateNews_start_h False ?p1) = translateNews_start (value_of ?p1)"
    using wf by (rule translateNews_start_h_value)
  have en: "value_step (case spread_h ?p1 of None \<Rightarrow> HUncaught ?p1
                | Some (c, p2) \<Rightarrow> HReturned (renderNews_h (p2\<lparr>newsData_at := c\<rparr>)))
      = (case spread (originalNewsData (value_of ?p1)) of
           None \<Rightarrow> Completed (Uncaught (value_of ?p1))
         | Some xs \<Rightarrow> Completed (Returned (renderNews ((value_of ?p1)\<lparr>newsData := xs\<rparr>))))"
  proof (cases "originalNewsData_at p")
    case ScalarValue
    then show ?thesis
      by (simp add: spread_h_def original_value_def)
  next
    case (ArrayAt a)
    then show ?thesis
      using copy_page [OF wf, of a]
      by (simp add: spread_h_def original_value_def case_prod_beta renderNews_h_value)
  qed
  show ?thesis
    using tr en unfolding langClick_start_h_def langClick_start_def Let_def
    by (cases "lang_of p") (simp_all cong: option.case_cong)
qed

lemma loaded_h_value:
  assumes "wf_page p" and "a < fresh p"
  shows "value_step (loaded_h a p)
      = (if lang_of p = RU
         then translateNews_start
                ((value_of p)\<lparr>originalNewsData := Snapshot (elements p a),
                               newsData := elements p a\<rparr>)
         else Completed (Returned (renderNews
                ((value_of p)\<lparr>originalNewsData := Snapshot (elements p a),
                               newsData := elements p a\<rparr>))))"
proof -
  let ?q = "p\<lparr>originalNewsData_at := ArrayAt a\<rparr>"
  have wf: "wf_page ?q"
    using assms by (simp add: wf_page_def)
  have v: "value_of ?q = (value_of p)\<lparr>originalNewsData := Snapshot (elements p a)\<rparr>"
    by (simp add: value_of_original_update)
  have ar: "arrays ?q a = arrays p a"
    by simp
  note cp = copy_page [OF wf, of a]
  let ?p3 = "(snd (alloc_array (arrays ?q a) ?q))
      \<lparr>newsData_at := fst (alloc_array (arrays ?q a) ?q)\<rparr>"
  have l: "lang_of ?p3 = lang_of p"
    by (simp add: alloc_array_def)
  show ?thesis
    using cp(1) translateNews_start_h_value [OF cp(2)] renderNews_h_value(1) [OF cp(2)] l
    by (simp add: loaded_h_def case_prod_beta v alloc_array_def)
qed

lemma loadNews_h_value:
  assumes "wf_page p"
  shows "loadNews forceRefresh feed backend (value_of p)
      = (case run_from backend
                (value_step (loadNews_resume_h feed (loadNews_start_h forceRefresh p))) of
           Returned s \<Rightarrow> s
         | Uncaught s \<Rightarrow> load_failed s)"
proof -
  let ?q = "loadNews_start_h forceRefresh p"
  let ?s1 = "fetch (GetNews forceRefresh) (display_view Loading (value_of p))"
  have wf: "wf_page ?q"
    using assms by (simp add: loadNews_start_h_def)
  have v: "value_of ?q = ?s1"
    by (simp add: loadNews_start_h_def)
  have failed: ?thesis
    if "loadNews forceRefresh feed backend (value_of p) = load_failed ?s1"
      and "loadNews_resume_h feed ?q = load_failed_h ?q"
    using that v by (simp add: load_failed_h_def load_failed_def)
  have loaded: ?thesis
    if st: "loadNews_resume_h feed ?q = loaded_h a p1"
      and p1: "wf_page p1" "a < fresh p1" "value_of p1 = ?s1"
      and feed: "feed = Parsed status (JsonValue items)"
        "items_or_empty items = Snapshot (elements p1 a)"
    for a p1 status items
  proof -
    let ?s3 = "?s1\<lparr>originalNewsData := Snapshot (elements p1 a), newsData := elements p1 a\<rparr>"
    have l: "lang_of p1 = currentLang ?s3"
      using arg_cong [OF p1(3), of currentLang] by simp
    have "loadNews forceRefresh feed backend (value_of p)
        = (if currentLang ?s3 = RU
           then (case translateNews backend ?s3 of
                   Returned s4 \<Rightarrow> s4 | Uncaught s4 \<Rightarrow> load_failed s4)
           else renderNews ?s3)"
      by (simp add: loadNews_def feed)
    then show ?thesis
      using loaded_h_value [OF p1(1,2)] l
      by (simp add: st p1(3) translateNews_def)
  qed
  show ?thesis
  proof (cases feed)
    case Rejected
    then show ?thesis by (intro failed) (simp_all add: loadNews_def)
  next
    case (NotJson status)
    then show ?thesis by (intro failed) (simp_all add: loadNews_def)
  next
    case (Parsed status body)
    show ?thesis
    proof (cases body)
      case JsonNull
      with Parsed show ?thesis by (intro failed) (simp_all add: loadNews_def)
    next
      case (JsonValue items)
      show ?thesis
      proof (cases items)
        case ItemsFalsy
        note al = alloc_array_value [OF wf, of "[]"]
        have el: "elements (snd (alloc_array [] ?q)) (fresh ?q) = []"
          by (simp add: alloc_array_def elements_def)
        show ?thesis
          by (rule loaded [where a = "fst (alloc_array [] ?q)"
                and ?p1.0 = "snd (alloc_array [] ?q)" and status = status
                and items = ItemsFalsy])
            (simp_all add: Parsed JsonValue ItemsFalsy case_prod_beta al v el)
      next
        case (ItemsArray ys)
        note pa = parse_items_value [OF wf, where ys = ys]
        have lt: "fst (parse_items ys ?q) < fresh (snd (parse_items ys ?q))"
          by (simp add: parse_items_def alloc_array_def)
        show ?thesis
          by (rule loaded [where a = "fst (parse_items ys ?q)"
                and ?p1.0 = "snd (parse_items ys ?q)" and status = status
                and items = "ItemsArray ys"])
            (simp_all add: Parsed JsonValue ItemsArray case_prod_beta pa v lt)
      next
        case ItemsScalar
        have "value_of (?q\<lparr>originalNewsData_at := ScalarValue\<rparr>)
            = ?s1\<lparr>originalNewsData := Scalar\<rparr>"
          by (simp add: value_of_original_update v)
        then show ?thesis
          using Parsed JsonValue ItemsScalar
          by (simp add: loadNews_def load_failed_h_def load_failed_def)
      qed
    qed
  qed
qed

section \<open>A translation that has been superseded\<close>




end
